theory Spec2Isabelle
  imports Main "HOL-Library.Multiset"
begin

section \<open>Run-time errors, slices and arrays\<close>

text \<open>
  The Go code can stop in four ways: the explicit \<open>panic("diff: no path found")\<close> at the
  end of \<open>Diff\<close>, an index out of range, a slice expression out of range, and a
  \<open>make\<close> with a negative length. Each is a value of \<open>error\<close>; a computation that
  can panic returns \<open>error + 'a\<close>, with \<open>Inl\<close> for the panic. Go's \<open>int\<close> is
  modelled as an unbounded \<open>int\<close>: every number the code computes is bounded by
  \<open>2 * (n + m) + 3\<close>, the length of a slice it has allocated.
\<close>

datatype error = NoPathFound | IndexOutOfRange | SliceBounds | MakeLen

definition index :: "'a list \<Rightarrow> int \<Rightarrow> error + 'a" where
  "index v i = (if 0 \<le> i \<and> i < int (length v) then Inr (v ! nat i) else Inl IndexOutOfRange)"

definition assign :: "'a list \<Rightarrow> int \<Rightarrow> 'a \<Rightarrow> error + 'a list" where
  "assign v i a =
     (if 0 \<le> i \<and> i < int (length v) then Inr (v[nat i := a]) else Inl IndexOutOfRange)"

definition make_slice :: "int \<Rightarrow> error + int list" where
  "make_slice l = (if l < 0 then Inl MakeLen else Inr (replicate (nat l) 0))"

definition copy :: "'a list \<Rightarrow> 'a list \<Rightarrow> 'a list" where
  "copy dst src = take (length dst) src @ drop (length src) dst"

definition slice :: "'a list \<Rightarrow> int \<Rightarrow> int \<Rightarrow> error + 'a list" where
  "slice a lo hi =
     (if 0 \<le> lo \<and> lo \<le> hi \<and> hi \<le> int (length a)
      then Inr (take (nat (hi - lo)) (drop (nat lo) a)) else Inl SliceBounds)"

section \<open>The interface\<close>

text \<open>
  \<open>diff.Interface\<close>: \<open>Lengths\<close> and \<open>Equal\<close> are the two queries; \<open>Equal\<close> may panic
  (the implementations of the package index their slices). The third method,
  \<open>Common(i, j, n)\<close>, is a callback: \<open>Diff\<close> only ever calls it after its last call of
  \<open>Equal\<close>, so the model records the calls in order, as triples \<open>(i, j, n)\<close>, and an
  implementation's \<open>Common\<close> is then run over the recorded calls.
\<close>

record Interface =
  Lengths :: "int \<times> int"
  Equal :: "int \<Rightarrow> int \<Rightarrow> error + bool"

type_synonym call = "int \<times> int \<times> int"

section \<open>Diff\<close>

text \<open>The innermost loop of \<open>Diff\<close>: \<open>for x < n && y < m && data.Equal(x, y) { x++; y++ }\<close>.\<close>

function snake :: "Interface \<Rightarrow> int \<Rightarrow> int \<Rightarrow> int \<Rightarrow> int \<Rightarrow> error + (int \<times> int)" where
  "snake data n m x y =
     (if x < n \<and> y < m then
        (case Equal data x y of
           Inl e \<Rightarrow> Inl e
         | Inr b \<Rightarrow> if b then snake data n m (x + 1) (y + 1) else Inr (x, y))
      else Inr (x, y))"
  by pat_completeness auto
termination
  by (relation "measure (\<lambda>(data, n, m, x, y). nat (n - x))") auto

declare snake.simps [simp del]

text \<open>
  The test \<open>k == -d || (k != d && v[K-1] < v[K+1])\<close>, which \<open>Diff\<close> and \<open>common\<close>
  both evaluate, with Go's short-circuit order: no element of \<open>v\<close> is read when
  \<open>k == -d\<close> or \<open>k == d\<close>.
\<close>

definition is_insert :: "int list \<Rightarrow> int \<Rightarrow> int \<Rightarrow> int \<Rightarrow> error + bool" where
  "is_insert v d k K =
     (if k = - d then Inr True
      else if k = d then Inr False
      else (case index v (K - 1) of
              Inl e \<Rightarrow> Inl e
            | Inr a \<Rightarrow> (case index v (K + 1) of Inl e \<Rightarrow> Inl e | Inr b \<Rightarrow> Inr (a < b))))"

text \<open>
  The loop \<open>for k := -d; k <= d; k += 2\<close> of \<open>Diff\<close>. It returns the updated \<open>v\<close> and
  whether the body took its \<open>return\<close> (\<open>x >= n && y >= m\<close>).
\<close>

function diagonals ::
  "Interface \<Rightarrow> int \<Rightarrow> int \<Rightarrow> int \<Rightarrow> int list \<Rightarrow> int \<Rightarrow> error + (int list \<times> bool)" where
  "diagonals data n m d v k =
     (if k \<le> d then
        (case is_insert v d k (int (length v) div 2 + k) of
           Inl e \<Rightarrow> Inl e
         | Inr ins \<Rightarrow>
           (case (if ins then index v (int (length v) div 2 + k + 1)
                  else (case index v (int (length v) div 2 + k - 1) of
                          Inl e \<Rightarrow> Inl e | Inr a \<Rightarrow> Inr (a + 1))) of
              Inl e \<Rightarrow> Inl e
            | Inr x0 \<Rightarrow>
              (case snake data n m x0 (x0 - k) of
                 Inl e \<Rightarrow> Inl e
               | Inr (x, y) \<Rightarrow>
                 (case assign v (int (length v) div 2 + k) x of
                    Inl e \<Rightarrow> Inl e
                  | Inr v' \<Rightarrow>
                    if x \<ge> n \<and> y \<ge> m then Inr (v', True)
                    else diagonals data n m d v' (k + 2)))))
      else Inr (v, False))"
  by pat_completeness auto
termination
  by (relation "measure (\<lambda>(data, n, m, d, v, k). nat (d - k + 1))") auto

declare diagonals.simps [simp del]

text \<open>
  \<open>common\<close>: the backtrace. The calls of \<open>data.Common\<close> are returned in the order they
  are made: those of the recursive call first, then this frame's own, if it makes one.
\<close>

function common :: "int list list \<Rightarrow> int \<Rightarrow> int \<Rightarrow> int \<Rightarrow> error + call list" where
  "common vs x1 y1 d =
     (case index vs d of
        Inl e \<Rightarrow> Inl e
      | Inr v \<Rightarrow>
        (case is_insert v d (x1 - y1) (int (length v) div 2 + (x1 - y1)) of
           Inl e \<Rightarrow> Inl e
         | Inr ins \<Rightarrow>
           (case (if ins
                  then (case index v (int (length v) div 2 + (x1 - y1) + 1) of
                          Inl e \<Rightarrow> Inl e
                        | Inr x \<Rightarrow> Inr (x, x - ((x1 - y1) + 1), x))
                  else (case index v (int (length v) div 2 + (x1 - y1) - 1) of
                          Inl e \<Rightarrow> Inl e
                        | Inr x \<Rightarrow> Inr (x, x - ((x1 - y1) - 1), x + 1))) of
              Inl e \<Rightarrow> Inl e
            | Inr (x, y, xm) \<Rightarrow>
              (case (if d > 0 then common vs x y (d - 1) else Inr []) of
                 Inl e \<Rightarrow> Inl e
               | Inr calls \<Rightarrow>
                 if x1 - xm > 0 \<or> d = int (length vs) - 1
                 then Inr (calls @ [(xm, y1 - (x1 - xm), x1 - xm)])
                 else Inr calls))))"
  by pat_completeness auto
termination
  by (relation "measure (\<lambda>(vs, x1, y1, d). nat d)") auto

declare common.simps [simp del]

text \<open>
  The loop \<open>for d := 0; d <= m+n; d++\<close> of \<open>Diff\<close>, with \<open>vs\<close> as its state. When
  the body takes its \<open>return\<close>, the loop's value is \<open>vs\<close> as it is there, after
  \<open>vs = append(vs, v)\<close>. Leaving the loop without the \<open>return\<close> is the panic.
\<close>

function depths ::
  "Interface \<Rightarrow> int \<Rightarrow> int \<Rightarrow> int list list \<Rightarrow> int \<Rightarrow> error + int list list" where
  "depths data n m vs d =
     (if d \<le> m + n then
        (case make_slice (2 * (n + m) + 3) of
           Inl e \<Rightarrow> Inl e
         | Inr v0 \<Rightarrow>
           (case (if d = 0 then assign v0 1 0
                  else (case index vs (d - 1) of
                          Inl e \<Rightarrow> Inl e | Inr w \<Rightarrow> Inr (copy v0 w))) of
              Inl e \<Rightarrow> Inl e
            | Inr v \<Rightarrow>
              (case diagonals data n m d v (- d) of
                 Inl e \<Rightarrow> Inl e
               | Inr (v', found) \<Rightarrow>
                 if found then Inr (vs @ [v']) else depths data n m (vs @ [v']) (d + 1))))
      else Inl NoPathFound)"
  by pat_completeness auto
termination
  by (relation "measure (\<lambda>(data, n, m, vs, d). nat (m + n + 1 - d))") auto

declare depths.simps [simp del]

text \<open>
  \<open>Diff\<close>: the search, then \<open>common(data, vs, n, m, len(vs)-1)\<close> and
  \<open>return len(vs) - 1\<close>. The result is the number of edits together with the calls of
  \<open>Common\<close> that were made.
\<close>

definition Diff :: "Interface \<Rightarrow> error + (int \<times> call list)" where
  "Diff data =
     (case Lengths data of
        (n, m) \<Rightarrow>
          (case depths data n m [] 0 of
             Inl e \<Rightarrow> Inl e
           | Inr vs \<Rightarrow>
             (case common vs n m (int (length vs) - 1) of
                Inl e \<Rightarrow> Inl e
              | Inr calls \<Rightarrow> Inr (int (length vs) - 1, calls))))"

text \<open>Running a callback over the recorded calls, in order, stopping at a panic.\<close>

fun run_calls :: "(call \<Rightarrow> 's \<Rightarrow> error + 's) \<Rightarrow> call list \<Rightarrow> 's \<Rightarrow> error + 's" where
  "run_calls f [] s = Inr s"
| "run_calls f (c # cs) s = (case f c s of Inl e \<Rightarrow> Inl e | Inr s' \<Rightarrow> run_calls f cs s')"

section \<open>The implementations of the interface\<close>

subsection \<open>\<open>stringDiff\<close>, the implementation in the package's test\<close>

text \<open>
  A Go string is indexed by bytes; \<open>string\<close> is a list of bytes. \<open>Common\<close> appends
  \<open>a[i:i+n]\<close> to \<open>lcsa\<close> and \<open>b[j:j+n]\<close> to \<open>lcsb\<close>.
\<close>

definition stringDiff :: "string \<Rightarrow> string \<Rightarrow> Interface" where
  "stringDiff a b =
     \<lparr>Lengths = (int (length a), int (length b)),
      Equal = (\<lambda>i j. case index a i of
                 Inl e \<Rightarrow> Inl e
               | Inr c \<Rightarrow> (case index b j of Inl e \<Rightarrow> Inl e | Inr c' \<Rightarrow> Inr (c = c')))\<rparr>"

fun stringDiff_Common ::
  "string \<Rightarrow> string \<Rightarrow> call \<Rightarrow> string list \<times> string list \<Rightarrow> error + (string list \<times> string list)" where
  "stringDiff_Common a b (i, j, n) (lcsa, lcsb) =
     (case slice a i (i + n) of
        Inl e \<Rightarrow> Inl e
      | Inr sa \<Rightarrow>
        (case slice b j (j + n) of
           Inl e \<Rightarrow> Inl e
         | Inr sb \<Rightarrow> Inr (lcsa @ [sa], lcsb @ [sb])))"

text \<open>
  What one case of \<open>TestDiff\<close> computes: the edits and the two lists the callback built.
\<close>

definition runStringDiff :: "string \<Rightarrow> string \<Rightarrow> error + (int \<times> string list \<times> string list)" where
  "runStringDiff a b =
     (case Diff (stringDiff a b) of
        Inl e \<Rightarrow> Inl e
      | Inr (edits, calls) \<Rightarrow>
        (case run_calls (stringDiff_Common a b) calls ([], []) of
           Inl e \<Rightarrow> Inl e
         | Inr (lcsa, lcsb) \<Rightarrow> Inr (edits, lcsa, lcsb)))"

subsection \<open>Side-by-side diff\<close>

definition NoChange :: int where "NoChange = 0"
definition Added :: int where "Added = 1"
definition Deleted :: int where "Deleted = 2"
definition Changed :: int where "Changed = 3"

record SideBySideLine =
  Left :: string
  Right :: string
  Type :: int

text \<open>
  The struct \<open>sideBySide\<close>: \<open>a\<close> and \<open>b\<close> are never assigned after the struct is built
  and are parameters of the functions below; \<open>i\<close>, \<open>j\<close> and \<open>lines\<close> are the state.
\<close>

record sideBySide =
  sbs_i :: int
  sbs_j :: int
  sbs_lines :: "SideBySideLine list"

definition sideBySide_Interface :: "string list \<Rightarrow> string list \<Rightarrow> Interface" where
  "sideBySide_Interface a b =
     \<lparr>Lengths = (int (length a), int (length b)),
      Equal = (\<lambda>i j. case index a i of
                 Inl e \<Rightarrow> Inl e
               | Inr s \<Rightarrow> (case index b j of Inl e \<Rightarrow> Inl e | Inr s' \<Rightarrow> Inr (s = s')))\<rparr>"

text \<open>The first loop of \<open>sideBySide.Common\<close>: \<open>for d.i < i || d.j < j\<close>.\<close>

function sideBySide_gap ::
  "string list \<Rightarrow> string list \<Rightarrow> int \<Rightarrow> int \<Rightarrow> sideBySide \<Rightarrow> error + sideBySide" where
  "sideBySide_gap a b i j d =
     (if sbs_i d < i \<or> sbs_j d < j then
        (case (if sbs_i d < i
               then (case index a (sbs_i d) of Inl e \<Rightarrow> Inl e | Inr l \<Rightarrow> Inr (l, sbs_i d + 1))
               else Inr ('''', sbs_i d)) of
           Inl e \<Rightarrow> Inl e
         | Inr (left, i') \<Rightarrow>
           (case (if sbs_j d < j
                  then (case index b (sbs_j d) of Inl e \<Rightarrow> Inl e | Inr r \<Rightarrow> Inr (r, sbs_j d + 1))
                  else Inr ('''', sbs_j d)) of
              Inl e \<Rightarrow> Inl e
            | Inr (right, j') \<Rightarrow>
              sideBySide_gap a b i j
                \<lparr>sbs_i = i', sbs_j = j',
                 sbs_lines = sbs_lines d @
                   [\<lparr>Left = left, Right = right,
                     Type = (if sbs_i d \<ge> i then Added
                             else if sbs_j d \<ge> j then Deleted else Changed)\<rparr>]\<rparr>))
      else Inr d)"
  by pat_completeness auto
termination
  by (relation "measure (\<lambda>(a, b, i, j, d). nat (i - sbs_i d) + nat (j - sbs_j d))")
    (auto split: if_splits sum.splits)

declare sideBySide_gap.simps [simp del]

text \<open>The second loop: \<open>for ; n > 0; n--\<close>.\<close>

function sideBySide_run ::
  "string list \<Rightarrow> string list \<Rightarrow> int \<Rightarrow> sideBySide \<Rightarrow> error + sideBySide" where
  "sideBySide_run a b n d =
     (if n > 0 then
        (case index a (sbs_i d) of
           Inl e \<Rightarrow> Inl e
         | Inr l \<Rightarrow>
           (case index b (sbs_j d) of
              Inl e \<Rightarrow> Inl e
            | Inr r \<Rightarrow>
              sideBySide_run a b (n - 1)
                \<lparr>sbs_i = sbs_i d + 1, sbs_j = sbs_j d + 1,
                 sbs_lines = sbs_lines d @ [\<lparr>Left = l, Right = r, Type = NoChange\<rparr>]\<rparr>))
      else Inr d)"
  by pat_completeness auto
termination
  by (relation "measure (\<lambda>(a, b, n, d). nat n)") auto

declare sideBySide_run.simps [simp del]

fun sideBySide_Common ::
  "string list \<Rightarrow> string list \<Rightarrow> call \<Rightarrow> sideBySide \<Rightarrow> error + sideBySide" where
  "sideBySide_Common a b (i, j, n) d =
     (case sideBySide_gap a b i j d of
        Inl e \<Rightarrow> Inl e
      | Inr d' \<Rightarrow> sideBySide_run a b n d')"

definition SideBySide :: "string list \<Rightarrow> string list \<Rightarrow> error + SideBySideLine list" where
  "SideBySide a b =
     (case Diff (sideBySide_Interface a b) of
        Inl e \<Rightarrow> Inl e
      | Inr (edits, calls) \<Rightarrow>
        (case run_calls (sideBySide_Common a b) calls \<lparr>sbs_i = 0, sbs_j = 0, sbs_lines = []\<rparr> of
           Inl e \<Rightarrow> Inl e
         | Inr d \<Rightarrow> Inr (sbs_lines d)))"

subsection \<open>Annotated diff\<close>

record AnnotatedLine =
  Text :: string
  Version :: int

text \<open>
  The struct \<open>annotate\<close>: \<open>a\<close>, \<open>b\<close> and \<open>version\<close> are parameters, \<open>j\<close> and \<open>lines\<close>
  the state.
\<close>

record annotate =
  ann_j :: int
  ann_lines :: "AnnotatedLine list"

definition annotate_Interface :: "AnnotatedLine list \<Rightarrow> string list \<Rightarrow> Interface" where
  "annotate_Interface a b =
     \<lparr>Lengths = (int (length a), int (length b)),
      Equal = (\<lambda>i j. case index a i of
                 Inl e \<Rightarrow> Inl e
               | Inr l \<Rightarrow> (case index b j of Inl e \<Rightarrow> Inl e | Inr s \<Rightarrow> Inr (Text l = s)))\<rparr>"

text \<open>The loop of \<open>annotate.Common\<close>: \<open>for d.j < j\<close>.\<close>

function annotate_gap :: "string list \<Rightarrow> int \<Rightarrow> int \<Rightarrow> annotate \<Rightarrow> error + annotate" where
  "annotate_gap b version j d =
     (if ann_j d < j then
        (case index b (ann_j d) of
           Inl e \<Rightarrow> Inl e
         | Inr s \<Rightarrow>
           annotate_gap b version j
             \<lparr>ann_j = ann_j d + 1,
              ann_lines = ann_lines d @ [\<lparr>Text = s, Version = version\<rparr>]\<rparr>)
      else Inr d)"
  by pat_completeness auto
termination
  by (relation "measure (\<lambda>(b, version, j, d). nat (j - ann_j d))") auto

declare annotate_gap.simps [simp del]

text \<open>
  \<open>d.lines = append(d.lines, d.a[i:i+n]...)\<close>: the slice expression is checked against
  the length of \<open>a\<close> (a slice whose capacity is its length).
\<close>

fun annotate_Common ::
  "AnnotatedLine list \<Rightarrow> string list \<Rightarrow> int \<Rightarrow> call \<Rightarrow> annotate \<Rightarrow> error + annotate" where
  "annotate_Common a b version (i, j, n) d =
     (case annotate_gap b version j d of
        Inl e \<Rightarrow> Inl e
      | Inr d' \<Rightarrow>
        (case slice a i (i + n) of
           Inl e \<Rightarrow> Inl e
         | Inr run \<Rightarrow> Inr \<lparr>ann_j = ann_j d' + n, ann_lines = ann_lines d' @ run\<rparr>))"

definition Annotate ::
  "AnnotatedLine list \<Rightarrow> string list \<Rightarrow> int \<Rightarrow> error + AnnotatedLine list" where
  "Annotate a b version =
     (case Diff (annotate_Interface a b) of
        Inl e \<Rightarrow> Inl e
      | Inr (edits, calls) \<Rightarrow>
        (case run_calls (annotate_Common a b version) calls \<lparr>ann_j = 0, ann_lines = []\<rparr> of
           Inl e \<Rightarrow> Inl e
         | Inr d \<Rightarrow> Inr (ann_lines d)))"

section \<open>The search as pure functions\<close>

text \<open>
  What follows describes the values that \<open>Diff\<close> computes by functions without arrays
  and without panics, proves that the loops above compute exactly these values, and
  derives the properties of \<open>Diff\<close> from them.

  \<open>matches data x y\<close>: \<open>Equal(x, y)\<close> returns true. A protocol is well behaved when its
  lengths are not negative and \<open>Equal\<close> answers (does not panic) for every pair of
  indices inside the two sequences. That \<open>Lengths\<close> and \<open>Equal\<close> give the same answer
  each time they are asked is built into the model: they are a value and a function.
\<close>

definition matches :: "Interface \<Rightarrow> int \<Rightarrow> int \<Rightarrow> bool" where
  "matches data x y = (Equal data x y = Inr True)"

definition well_behaved :: "Interface \<Rightarrow> bool" where
  "well_behaved data =
     (case Lengths data of
        (n, m) \<Rightarrow> 0 \<le> n \<and> 0 \<le> m \<and>
          (\<forall>x y. 0 \<le> x \<and> x < n \<and> 0 \<le> y \<and> y < m \<longrightarrow> (\<exists>b. Equal data x y = Inr b)))"

text \<open>The snake without the protocol's panics: the \<open>x\<close> at which the innermost loop stops.\<close>

function slide :: "(int \<Rightarrow> int \<Rightarrow> bool) \<Rightarrow> int \<Rightarrow> int \<Rightarrow> int \<Rightarrow> int \<Rightarrow> int" where
  "slide eq n m x y = (if x < n \<and> y < m \<and> eq x y then slide eq n m (x + 1) (y + 1) else x)"
  by pat_completeness auto
termination
  by (relation "measure (\<lambda>(eq, n, m, x, y). nat (n - x))") auto

declare slide.simps [simp del]

text \<open>
  \<open>far eq n m d k\<close> is the value that \<open>Diff\<close> stores in \<open>v[K]\<close> for diagonal \<open>k\<close> in the
  iteration \<open>d\<close> of its outer loop: the \<open>x\<close> reached on diagonal \<open>k\<close> after the snake.
  \<open>below eq n m d k\<close> is what the iteration \<open>d\<close> finds in \<open>v\<close> for a neighbouring
  diagonal \<open>k\<close> (0 in the fresh slice of iteration 0, the value of iteration
  \<open>d - 1\<close> after that), \<open>ins\<close> is the test \<open>k == -d || (k != d && v[K-1] < v[K+1])\<close> on
  these values, and \<open>start\<close> the \<open>x\<close> before the snake.
\<close>

fun far :: "(int \<Rightarrow> int \<Rightarrow> bool) \<Rightarrow> int \<Rightarrow> int \<Rightarrow> nat \<Rightarrow> int \<Rightarrow> int" where
  "far eq n m 0 k = slide eq n m 0 (0 - k)"
| "far eq n m (Suc d) k =
     (if k = - int (Suc d) \<or> (k \<noteq> int (Suc d) \<and> far eq n m d (k - 1) < far eq n m d (k + 1))
      then slide eq n m (far eq n m d (k + 1)) (far eq n m d (k + 1) - k)
      else slide eq n m (far eq n m d (k - 1) + 1) (far eq n m d (k - 1) + 1 - k))"

definition below :: "(int \<Rightarrow> int \<Rightarrow> bool) \<Rightarrow> int \<Rightarrow> int \<Rightarrow> nat \<Rightarrow> int \<Rightarrow> int" where
  "below eq n m d k = (case d of 0 \<Rightarrow> 0 | Suc d' \<Rightarrow> far eq n m d' k)"

definition ins :: "(int \<Rightarrow> int \<Rightarrow> bool) \<Rightarrow> int \<Rightarrow> int \<Rightarrow> nat \<Rightarrow> int \<Rightarrow> bool" where
  "ins eq n m d k =
     (k = - int d \<or> (k \<noteq> int d \<and> below eq n m d (k - 1) < below eq n m d (k + 1)))"

definition start :: "(int \<Rightarrow> int \<Rightarrow> bool) \<Rightarrow> int \<Rightarrow> int \<Rightarrow> nat \<Rightarrow> int \<Rightarrow> int" where
  "start eq n m d k =
     (if ins eq n m d k then below eq n m d (k + 1) else below eq n m d (k - 1) + 1)"

text \<open>The diagonals that the iteration \<open>d\<close> visits: \<open>-d, -d + 2, \<dots>, d\<close>.\<close>

definition on_diag :: "nat \<Rightarrow> int \<Rightarrow> bool" where
  "on_diag d k = (- int d \<le> k \<and> k \<le> int d \<and> even (k + int d))"

text \<open>
  Edit scripts, as paths of the edit graph: \<open>reach eq n m d x y\<close> says that the point
  \<open>(x, y)\<close> is reached from \<open>(0, 0)\<close> with exactly \<open>d\<close> edits. A step to the right deletes
  an element of the left sequence, a step down inserts an element of the right
  sequence, and a diagonal step keeps a pair of equal elements and exists inside the
  two sequences only. Like the code, the paths may leave the rectangle
  \<open>[0, n] \<times> [0, m]\<close> by edits.
\<close>

inductive reach :: "(int \<Rightarrow> int \<Rightarrow> bool) \<Rightarrow> int \<Rightarrow> int \<Rightarrow> nat \<Rightarrow> int \<Rightarrow> int \<Rightarrow> bool"
  for eq :: "int \<Rightarrow> int \<Rightarrow> bool" and n :: int and m :: int where
  origin: "reach eq n m 0 0 0"
| right: "reach eq n m d x y \<Longrightarrow> reach eq n m (Suc d) (x + 1) y"
| down: "reach eq n m d x y \<Longrightarrow> reach eq n m (Suc d) x (y + 1)"
| diag: "reach eq n m d x y \<Longrightarrow> x < n \<Longrightarrow> y < m \<Longrightarrow> eq x y \<Longrightarrow> reach eq n m d (x + 1) (y + 1)"

lemma far_start: "on_diag d k \<Longrightarrow> far eq n m d k = slide eq n m (start eq n m d k) (start eq n m d k - k)"
  by (cases d) (auto simp: start_def ins_def below_def on_diag_def)

lemma slide_ge: "x \<le> slide eq n m x y"
  by (induction eq n m x y rule: slide.induct) (subst slide.simps, auto)

lemma slide_stop:
  "\<not> (slide eq n m x y < n \<and> slide eq n m x y - x + y < m \<and> eq (slide eq n m x y) (slide eq n m x y - x + y))"
proof (induction eq n m x y rule: slide.induct)
  case (1 eq n m x y)
  show ?case
  proof (cases "x < n \<and> y < m \<and> eq x y")
    case True
    then have "slide eq n m x y = slide eq n m (x + 1) (y + 1)"
      by (subst slide.simps) simp
    with 1 True show ?thesis by (simp add: algebra_simps)
  next
    case False
    then have "slide eq n m x y = x"
      by (subst slide.simps) auto
    with False show ?thesis by auto
  qed
qed

lemma slide_match:
  "x \<le> t \<Longrightarrow> t < slide eq n m x y \<Longrightarrow> t < n \<and> t - x + y < m \<and> eq t (t - x + y)"
proof (induction eq n m x y rule: slide.induct)
  case (1 eq n m x y)
  show ?case
  proof (cases "x < n \<and> y < m \<and> eq x y")
    case True
    then have s: "slide eq n m x y = slide eq n m (x + 1) (y + 1)"
      by (subst slide.simps) simp
    show ?thesis
    proof (cases "t = x")
      case True
      with \<open>x < n \<and> y < m \<and> eq x y\<close> show ?thesis by simp
    next
      case False
      with 1 True s show ?thesis by (auto simp: algebra_simps)
    qed
  next
    case False
    then have "slide eq n m x y = x"
      by (subst slide.simps) auto
    with 1 show ?thesis by simp
  qed
qed

lemma slide_reach:
  "reach eq n m d x y \<Longrightarrow> reach eq n m d (slide eq n m x y) (slide eq n m x y - x + y)"
proof (induction eq n m x y rule: slide.induct)
  case (1 eq n m x y)
  show ?case
  proof (cases "x < n \<and> y < m \<and> eq x y")
    case True
    then have s: "slide eq n m x y = slide eq n m (x + 1) (y + 1)"
      by (subst slide.simps) simp
    from True 1(2) have "reach eq n m d (x + 1) (y + 1)"
      by (auto intro: reach.diag)
    with 1(1) True have "reach eq n m d (slide eq n m (x + 1) (y + 1)) (slide eq n m (x + 1) (y + 1) - (x + 1) + (y + 1))"
      by simp
    then show ?thesis by (simp add: s algebra_simps)
  next
    case False
    then have "slide eq n m x y = x"
      by (subst slide.simps) auto
    with 1 show ?thesis by simp
  qed
qed

lemma snake_slide:
  assumes "\<And>x y. 0 \<le> x \<Longrightarrow> x < n \<Longrightarrow> 0 \<le> y \<Longrightarrow> y < m \<Longrightarrow> \<exists>b. Equal data x y = Inr b"
    and "0 \<le> x" and "0 \<le> y"
  shows "snake data n m x y =
    Inr (slide (matches data) n m x y, slide (matches data) n m x y - x + y)"
  using assms
proof (induction "matches data" n m x y rule: slide.induct)
  case (1 n m x y)
  note wb = 1(2)
  show ?case
  proof (cases "x < n \<and> y < m")
    case True
    with 1(3,4) wb [of x y] obtain b where b: "Equal data x y = Inr b" by auto
    show ?thesis
    proof (cases b)
      case True
      with b have mt: "matches data x y" by (simp add: matches_def)
      with \<open>x < n \<and> y < m\<close> have s: "slide (matches data) n m x y = slide (matches data) n m (x + 1) (y + 1)"
        by (subst slide.simps) simp
      from 1(1) [OF _ wb] mt \<open>x < n \<and> y < m\<close> 1(3,4)
      have "snake data n m (x + 1) (y + 1) =
        Inr (slide (matches data) n m (x + 1) (y + 1), slide (matches data) n m (x + 1) (y + 1) - (x + 1) + (y + 1))"
        by simp
      moreover have "snake data n m x y = snake data n m (x + 1) (y + 1)"
        using b True \<open>x < n \<and> y < m\<close> by (subst snake.simps) simp
      ultimately show ?thesis by (simp add: s)
    next
      case False
      with b have mt: "\<not> matches data x y" by (simp add: matches_def)
      then have s: "slide (matches data) n m x y = x"
        by (subst slide.simps) simp
      have "snake data n m x y = Inr (x, y)"
        using b False \<open>x < n \<and> y < m\<close> by (subst snake.simps) simp
      then show ?thesis by (simp add: s)
    qed
  next
    case False
    then have s: "slide (matches data) n m x y = x"
      by (subst slide.simps) auto
    have "snake data n m x y = Inr (x, y)"
      using False by (subst snake.simps) auto
    then show ?thesis by (simp add: s)
  qed
qed

lemma reach_nonneg: "reach eq n m d x y \<Longrightarrow> 0 \<le> x \<and> 0 \<le> y"
  by (induction rule: reach.induct) auto

lemma reach_on_diag: "reach eq n m d x y \<Longrightarrow> on_diag d (x - y)"
  by (induction rule: reach.induct) (auto simp: on_diag_def)

lemma far_stop:
  "\<not> (far eq n m d k < n \<and> far eq n m d k - k < m \<and> eq (far eq n m d k) (far eq n m d k - k))"
proof (cases d)
  case 0
  show ?thesis
    using slide_stop [of eq n m 0 "0 - k"] by (simp add: 0)
next
  case (Suc d')
  show ?thesis
    using slide_stop [of eq n m "far eq n m d' (k + 1)" "far eq n m d' (k + 1) - k"]
      slide_stop [of eq n m "far eq n m d' (k - 1) + 1" "far eq n m d' (k - 1) + 1 - k"]
    by (simp add: Suc)
qed

lemma start_le_far: "on_diag d k \<Longrightarrow> start eq n m d k \<le> far eq n m d k"
  by (simp add: far_start slide_ge)

lemma on_diag_up: "on_diag (Suc d) k \<Longrightarrow> k \<noteq> int (Suc d) \<Longrightarrow> on_diag d (k + 1)"
  unfolding on_diag_def by presburger

lemma on_diag_down: "on_diag (Suc d) k \<Longrightarrow> k \<noteq> - int (Suc d) \<Longrightarrow> on_diag d (k - 1)"
  unfolding on_diag_def by presburger

lemma far_sound: "on_diag d k \<Longrightarrow> reach eq n m d (far eq n m d k) (far eq n m d k - k)"
proof (induction d arbitrary: k)
  case 0
  then have "k = 0" by (simp add: on_diag_def)
  then show ?case
    using slide_reach [OF reach.origin, of eq n m] by simp
next
  case (Suc d)
  show ?case
  proof (cases "k = - int (Suc d) \<or> (k \<noteq> int (Suc d) \<and> far eq n m d (k - 1) < far eq n m d (k + 1))")
    case True
    then have "k \<noteq> int (Suc d)" by auto
    with Suc.prems have "on_diag d (k + 1)" by (rule on_diag_up)
    then have "reach eq n m d (far eq n m d (k + 1)) (far eq n m d (k + 1) - (k + 1))"
      by (rule Suc.IH)
    then have "reach eq n m (Suc d) (far eq n m d (k + 1)) (far eq n m d (k + 1) - (k + 1) + 1)"
      by (rule reach.down)
    then have "reach eq n m (Suc d) (far eq n m d (k + 1)) (far eq n m d (k + 1) - k)"
      by (simp add: algebra_simps)
    from slide_reach [OF this]
    have "reach eq n m (Suc d) (slide eq n m (far eq n m d (k + 1)) (far eq n m d (k + 1) - k))
      (slide eq n m (far eq n m d (k + 1)) (far eq n m d (k + 1) - k) - k)"
      by (simp add: algebra_simps)
    moreover from True have "far eq n m (Suc d) k =
      slide eq n m (far eq n m d (k + 1)) (far eq n m d (k + 1) - k)"
      by (subst far.simps) (simp only: if_True)
    ultimately show ?thesis by simp
  next
    case False
    then have "k \<noteq> - int (Suc d)" by auto
    with Suc.prems have "on_diag d (k - 1)" by (rule on_diag_down)
    then have "reach eq n m d (far eq n m d (k - 1)) (far eq n m d (k - 1) - (k - 1))"
      by (rule Suc.IH)
    then have "reach eq n m (Suc d) (far eq n m d (k - 1) + 1) (far eq n m d (k - 1) - (k - 1))"
      by (rule reach.right)
    then have "reach eq n m (Suc d) (far eq n m d (k - 1) + 1) (far eq n m d (k - 1) + 1 - k)"
      by (simp add: algebra_simps)
    from slide_reach [OF this]
    have "reach eq n m (Suc d) (slide eq n m (far eq n m d (k - 1) + 1) (far eq n m d (k - 1) + 1 - k))
      (slide eq n m (far eq n m d (k - 1) + 1) (far eq n m d (k - 1) + 1 - k) - k)"
      by (simp add: algebra_simps)
    moreover from False have "far eq n m (Suc d) k =
      slide eq n m (far eq n m d (k - 1) + 1) (far eq n m d (k - 1) + 1 - k)"
      by (subst far.simps) (simp only: if_False)
    ultimately show ?thesis by simp
  qed
qed

lemma far_nonneg: "on_diag d k \<Longrightarrow> 0 \<le> far eq n m d k \<and> 0 \<le> far eq n m d k - k"
  using far_sound reach_nonneg by blast

lemma far_Suc_ge_up: "k \<noteq> int (Suc d) \<Longrightarrow> far eq n m d (k + 1) \<le> far eq n m (Suc d) k"
  using slide_ge [of "far eq n m d (k + 1)" eq n m "far eq n m d (k + 1) - k"]
    slide_ge [of "far eq n m d (k - 1) + 1" eq n m "far eq n m d (k - 1) + 1 - k"]
  by auto

lemma far_Suc_ge_down: "k \<noteq> - int (Suc d) \<Longrightarrow> far eq n m d (k - 1) + 1 \<le> far eq n m (Suc d) k"
  using slide_ge [of "far eq n m d (k + 1)" eq n m "far eq n m d (k + 1) - k"]
    slide_ge [of "far eq n m d (k - 1) + 1" eq n m "far eq n m d (k - 1) + 1 - k"]
  by auto

lemma far_complete: "reach eq n m d x y \<Longrightarrow> x \<le> far eq n m d (x - y)"
proof (induction rule: reach.induct)
  case origin
  show ?case using slide_ge [of 0 eq n m 0] by simp
next
  case (right d x y)
  from reach_on_diag [OF right.hyps] have "x + 1 - y \<noteq> - int (Suc d)"
    by (auto simp: on_diag_def)
  from far_Suc_ge_down [OF this, of eq n m] right.IH show ?case
    by (simp add: algebra_simps)
next
  case (down d x y)
  from reach_on_diag [OF down.hyps] have "x - (y + 1) \<noteq> int (Suc d)"
    by (auto simp: on_diag_def)
  from far_Suc_ge_up [OF this, of eq n m] down.IH show ?case
    by (simp add: algebra_simps)
next
  case (diag d x y)
  have "x \<noteq> far eq n m d (x - y)"
    using far_stop [of eq n m d "x - y"] diag.hyps by auto
  with diag.IH show ?case by simp
qed

text \<open>The point reached first: projecting a reachable point into the grid.\<close>

lemma reach_clamp:
  "reach eq n m d x y \<Longrightarrow> 0 \<le> n \<Longrightarrow> 0 \<le> m \<Longrightarrow>
   \<exists>d'. reach eq n m d' (min x n) (min y m) \<and> int d' + (x - min x n) + (y - min y m) \<le> int d"
proof (induction rule: reach.induct)
  case origin
  then have "min 0 n = 0" "min 0 m = 0" by simp_all
  then show ?case
    using reach.origin [of eq n m] by (intro exI [of _ 0]) simp
next
  case (right d x y)
  then obtain d' where d': "reach eq n m d' (min x n) (min y m)"
    "int d' + (x - min x n) + (y - min y m) \<le> int d" by blast
  show ?case
  proof (cases "x < n")
    case True
    then have e: "min x n = x" "min (x + 1) n = x + 1" by simp_all
    from reach.right [OF d'(1)] have "reach eq n m (Suc d') (min (x + 1) n) (min y m)"
      by (simp only: e)
    moreover from d'(2) have "int (Suc d') + (x + 1 - min (x + 1) n) + (y - min y m) \<le> int (Suc d)"
      by (simp add: e)
    ultimately show ?thesis by blast
  next
    case False
    then have e: "min x n = n" "min (x + 1) n = n" by simp_all
    from d'(1) have "reach eq n m d' (min (x + 1) n) (min y m)"
      by (simp only: e)
    moreover from d'(2) have "int d' + (x + 1 - min (x + 1) n) + (y - min y m) \<le> int (Suc d)"
      by (simp add: e)
    ultimately show ?thesis by blast
  qed
next
  case (down d x y)
  then obtain d' where d': "reach eq n m d' (min x n) (min y m)"
    "int d' + (x - min x n) + (y - min y m) \<le> int d" by blast
  show ?case
  proof (cases "y < m")
    case True
    then have e: "min y m = y" "min (y + 1) m = y + 1" by simp_all
    from reach.down [OF d'(1)] have "reach eq n m (Suc d') (min x n) (min (y + 1) m)"
      by (simp only: e)
    moreover from d'(2) have "int (Suc d') + (x - min x n) + (y + 1 - min (y + 1) m) \<le> int (Suc d)"
      by (simp add: e)
    ultimately show ?thesis by blast
  next
    case False
    then have e: "min y m = m" "min (y + 1) m = m" by simp_all
    from d'(1) have "reach eq n m d' (min x n) (min (y + 1) m)"
      by (simp only: e)
    moreover from d'(2) have "int d' + (x - min x n) + (y + 1 - min (y + 1) m) \<le> int (Suc d)"
      by (simp add: e)
    ultimately show ?thesis by blast
  qed
next
  case (diag d x y)
  then obtain d' where d': "reach eq n m d' (min x n) (min y m)"
    "int d' + (x - min x n) + (y - min y m) \<le> int d" by blast
  from diag.hyps have e: "min x n = x" "min y m = y" "min (x + 1) n = x + 1" "min (y + 1) m = y + 1"
    by simp_all
  from d'(1) have "reach eq n m d' x y" by (simp only: e)
  from reach.diag [OF this] diag.hyps have "reach eq n m d' (min (x + 1) n) (min (y + 1) m)"
    by (simp only: e)
  moreover from d'(2) have "int d' + (x + 1 - min (x + 1) n) + (y + 1 - min (y + 1) m) \<le> int d"
    by (simp add: e)
  ultimately show ?case by blast
qed

lemma reach_rights: "reach eq n m a (int a) 0"
proof (induction a)
  case 0
  show ?case using reach.origin [of eq n m] by simp
next
  case (Suc a)
  from reach.right [OF Suc] show ?case by (simp add: algebra_simps)
qed

lemma reach_all_edits: "reach eq n m (a + b) (int a) (int b)"
proof (induction b)
  case 0
  show ?case using reach_rights [of eq n m a] by simp
next
  case (Suc b)
  from reach.down [OF Suc] show ?case by (simp add: algebra_simps)
qed

section \<open>The loops compute the pure functions\<close>

text \<open>
  \<open>hit\<close>: the test \<open>x >= n && y >= m\<close> after the snake on diagonal \<open>k\<close> at depth \<open>d\<close>.
  The invariants of the slice \<open>v\<close> in the iteration \<open>d\<close>, whose middle index
  \<open>len(v)/2\<close> is \<open>n + m + 1\<close>: \<open>below_ok\<close> for the diagonals that the iteration reads
  (\<open>read_diag\<close>), \<open>done_upto\<close> for the diagonals below \<open>klim\<close> that it has written.
\<close>

definition hit :: "(int \<Rightarrow> int \<Rightarrow> bool) \<Rightarrow> int \<Rightarrow> int \<Rightarrow> nat \<Rightarrow> int \<Rightarrow> bool" where
  "hit eq n m d k = (n \<le> far eq n m d k \<and> m \<le> far eq n m d k - k)"

definition read_diag :: "nat \<Rightarrow> int \<Rightarrow> bool" where
  "read_diag d k = (case d of 0 \<Rightarrow> k = 1 | Suc d' \<Rightarrow> on_diag d' k)"

definition below_ok :: "(int \<Rightarrow> int \<Rightarrow> bool) \<Rightarrow> int \<Rightarrow> int \<Rightarrow> nat \<Rightarrow> int list \<Rightarrow> bool" where
  "below_ok eq n m d v =
     (length v = nat (2 * (n + m) + 3) \<and>
      (\<forall>k. read_diag d k \<longrightarrow> v ! nat (n + m + 1 + k) = below eq n m d k))"

definition done_upto :: "(int \<Rightarrow> int \<Rightarrow> bool) \<Rightarrow> int \<Rightarrow> int \<Rightarrow> nat \<Rightarrow> int \<Rightarrow> int list \<Rightarrow> bool" where
  "done_upto eq n m d klim v =
     (\<forall>k. on_diag d k \<and> k < klim \<longrightarrow> v ! nat (n + m + 1 + k) = far eq n m d k)"

lemma read_diag_bounds: "read_diag d k \<Longrightarrow> - int d \<le> k \<and> k \<le> int d + 1"
  by (cases d) (auto simp: read_diag_def on_diag_def)

lemma read_diag_up: "on_diag d k \<Longrightarrow> k \<noteq> int d \<or> d = 0 \<Longrightarrow> read_diag d (k + 1)"
proof (cases d)
  case 0
  assume "on_diag d k"
  with 0 show ?thesis by (simp add: read_diag_def on_diag_def)
next
  case (Suc d')
  assume "on_diag d k" "k \<noteq> int d \<or> d = 0"
  with Suc show ?thesis by (simp add: read_diag_def on_diag_up)
qed

lemma read_diag_down: "on_diag d k \<Longrightarrow> k \<noteq> - int d \<Longrightarrow> read_diag d (k - 1)"
proof (cases d)
  case 0
  assume "on_diag d k" "k \<noteq> - int d"
  with 0 show ?thesis by (simp add: on_diag_def)
next
  case (Suc d')
  assume "on_diag d k" "k \<noteq> - int d"
  with Suc show ?thesis by (simp add: read_diag_def on_diag_down)
qed

lemma read_diag_other: "read_diag d k' \<Longrightarrow> on_diag d k \<Longrightarrow> k' \<noteq> k"
proof (cases d)
  case 0
  assume "read_diag d k'" "on_diag d k"
  with 0 show ?thesis by (simp add: read_diag_def on_diag_def)
next
  case (Suc d')
  assume "read_diag d k'" "on_diag d k"
  with Suc have "even (k' + int d')" "even (k + int (Suc d'))"
    by (simp_all add: read_diag_def on_diag_def)
  then show ?thesis by presburger
qed

lemma centre: "length v = nat (2 * (n + m) + 3) \<Longrightarrow> 0 \<le> n + m \<Longrightarrow> int (length v) div 2 = n + m + 1"
  by simp

lemma index_below:
  assumes "below_ok eq n m d v" "read_diag d k" "int d \<le> n + m"
  shows "index v (n + m + 1 + k) = Inr (below eq n m d k)"
proof -
  from read_diag_bounds [OF assms(2)] assms(3)
  have "0 \<le> n + m + 1 + k" "n + m + 1 + k < 2 * (n + m) + 3" by simp_all
  with assms(1,2) show ?thesis
    by (simp add: below_ok_def index_def)
qed

lemma is_insert_spec:
  assumes "below_ok eq n m d v" "on_diag d k" "int d \<le> n + m"
  shows "is_insert v (int d) k (n + m + 1 + k) = Inr (ins eq n m d k)"
proof (cases "k = - int d \<or> k = int d")
  case True
  then show ?thesis by (auto simp: is_insert_def ins_def)
next
  case False
  with assms(2) have "read_diag d (k + 1)" "read_diag d (k - 1)"
    by (simp_all add: read_diag_up read_diag_down)
  from index_below [OF assms(1) this(1) assms(3)] index_below [OF assms(1) this(2) assms(3)]
  have "index v (n + m + 1 + k + 1) = Inr (below eq n m d (k + 1))"
    "index v (n + m + 1 + k - 1) = Inr (below eq n m d (k - 1))"
    by (simp_all add: algebra_simps)
  with False show ?thesis by (simp add: is_insert_def ins_def)
qed

lemma ins_not_top: "on_diag d k \<Longrightarrow> ins eq n m d k \<Longrightarrow> k \<noteq> int d \<or> d = 0"
  by (auto simp: ins_def)

lemma not_ins_not_bottom: "\<not> ins eq n m d k \<Longrightarrow> k \<noteq> - int d"
  by (auto simp: ins_def)

lemma read_start:
  assumes "below_ok eq n m d v" "on_diag d k" "int d \<le> n + m"
  shows "(if ins eq n m d k then index v (n + m + 1 + k + 1)
          else (case index v (n + m + 1 + k - 1) of Inl e \<Rightarrow> Inl e | Inr a \<Rightarrow> Inr (a + 1)))
         = Inr (start eq n m d k)"
proof (cases "ins eq n m d k")
  case True
  from read_diag_up [OF assms(2) ins_not_top [OF assms(2) True]]
  have "read_diag d (k + 1)" .
  from index_below [OF assms(1) this assms(3)] True show ?thesis
    by (simp add: start_def algebra_simps)
next
  case False
  from read_diag_down [OF assms(2) not_ins_not_bottom [OF False]]
  have "read_diag d (k - 1)" .
  from index_below [OF assms(1) this assms(3)] False show ?thesis
    by (simp add: start_def algebra_simps)
qed

lemma start_nonneg: "on_diag d k \<Longrightarrow> 0 \<le> start eq n m d k \<and> 0 \<le> start eq n m d k - k"
proof (cases d)
  case 0
  assume "on_diag d k"
  with 0 show ?thesis by (simp add: start_def below_def on_diag_def)
next
  case (Suc d')
  assume od: "on_diag d k"
  show ?thesis
  proof (cases "ins eq n m d k")
    case True
    with od Suc have "on_diag d' (k + 1)"
      using on_diag_up [of d' k] ins_not_top [OF od True] by simp
    from far_nonneg [OF this, of eq n m] True Suc show ?thesis
      by (simp add: start_def below_def)
  next
    case False
    with od Suc have "on_diag d' (k - 1)"
      using on_diag_down [of d' k] not_ins_not_bottom [OF False] by simp
    from far_nonneg [OF this, of eq n m] False Suc show ?thesis
      by (simp add: start_def below_def)
  qed
qed

lemma diagonals_step:
  assumes wb: "\<And>x y. 0 \<le> x \<Longrightarrow> x < n \<Longrightarrow> 0 \<le> y \<Longrightarrow> y < m \<Longrightarrow> \<exists>b. Equal data x y = Inr b"
    and bo: "below_ok (matches data) n m d v"
    and od: "on_diag d k"
    and dn: "int d \<le> n + m"
  shows "diagonals data n m (int d) v k =
     (if hit (matches data) n m d k
      then Inr (v[nat (n + m + 1 + k) := far (matches data) n m d k], True)
      else diagonals data n m (int d) (v[nat (n + m + 1 + k) := far (matches data) n m d k]) (k + 2))"
proof -
  let ?eq = "matches data"
  from dn have nm: "0 \<le> n + m" by simp
  from bo have len: "length v = nat (2 * (n + m) + 3)" by (simp add: below_ok_def)
  note c = centre [OF len nm]
  from od have kd: "k \<le> int d" "- int d \<le> k" by (simp_all add: on_diag_def)
  have 1: "is_insert v (int d) k (int (length v) div 2 + k) = Inr (ins ?eq n m d k)"
    unfolding c by (rule is_insert_spec [OF bo od dn])
  have 2: "(if ins ?eq n m d k then index v (int (length v) div 2 + k + 1)
          else (case index v (int (length v) div 2 + k - 1) of Inl e \<Rightarrow> Inl e | Inr a \<Rightarrow> Inr (a + 1)))
         = Inr (start ?eq n m d k)"
    unfolding c by (rule read_start [OF bo od dn])
  from start_nonneg [OF od, of ?eq n m]
  have "snake data n m (start ?eq n m d k) (start ?eq n m d k - k) =
    Inr (slide ?eq n m (start ?eq n m d k) (start ?eq n m d k - k),
         slide ?eq n m (start ?eq n m d k) (start ?eq n m d k - k) - start ?eq n m d k + (start ?eq n m d k - k))"
    by (intro snake_slide wb) simp_all
  then have 3: "snake data n m (start ?eq n m d k) (start ?eq n m d k - k) =
    Inr (far ?eq n m d k, far ?eq n m d k - k)"
    by (simp add: far_start [OF od])
  from kd dn have "0 \<le> n + m + 1 + k" "n + m + 1 + k < 2 * (n + m) + 3" by simp_all
  then have 4: "assign v (int (length v) div 2 + k) (far ?eq n m d k) =
    Inr (v[nat (n + m + 1 + k) := far ?eq n m d k])"
    unfolding c by (simp add: assign_def len)
  show ?thesis
    by (subst diagonals.simps) (simp add: 1 2 3 4 kd hit_def)
qed

lemma below_ok_update:
  assumes "below_ok eq n m d v" "on_diag d k" "int d \<le> n + m"
  shows "below_ok eq n m d (v[nat (n + m + 1 + k) := a])"
proof -
  have "v[nat (n + m + 1 + k) := a] ! nat (n + m + 1 + k') = v ! nat (n + m + 1 + k')"
    if "read_diag d k'" for k'
  proof -
    from read_diag_other [OF that assms(2)] have "k' \<noteq> k" .
    moreover from read_diag_bounds [OF that] assms(3) have "0 \<le> n + m + 1 + k'" by simp
    moreover from assms(2,3) have "0 \<le> n + m + 1 + k" by (simp add: on_diag_def)
    ultimately have "nat (n + m + 1 + k) \<noteq> nat (n + m + 1 + k')" by simp
    then show ?thesis by simp
  qed
  with assms(1) show ?thesis by (simp add: below_ok_def)
qed

lemma done_upto_update:
  assumes "done_upto eq n m d k v" "on_diag d k" "int d \<le> n + m"
    and "length v = nat (2 * (n + m) + 3)"
  shows "done_upto eq n m d (k + 2) (v[nat (n + m + 1 + k) := far eq n m d k])"
  unfolding done_upto_def
proof (intro allI impI)
  fix k'
  assume a: "on_diag d k' \<and> k' < k + 2"
  from assms(2,3) have i: "0 \<le> n + m + 1 + k" "n + m + 1 + k < 2 * (n + m) + 3"
    by (simp_all add: on_diag_def)
  show "v[nat (n + m + 1 + k) := far eq n m d k] ! nat (n + m + 1 + k') = far eq n m d k'"
  proof (cases "k' = k")
    case True
    with i assms(4) show ?thesis by simp
  next
    case False
    from a assms(2) have "even (k' + int d)" "even (k + int d)" by (simp_all add: on_diag_def)
    moreover from a have "k' < k + 2" by simp
    ultimately have lt: "k' < k" using False by presburger
    from a assms(3) have "0 \<le> n + m + 1 + k'" by (simp add: on_diag_def)
    with i False have "nat (n + m + 1 + k) \<noteq> nat (n + m + 1 + k')" by simp
    with assms(1) a lt show ?thesis by (simp add: done_upto_def)
  qed
qed

lemma diagonals_spec:
  assumes wb: "\<And>x y. 0 \<le> x \<Longrightarrow> x < n \<Longrightarrow> 0 \<le> y \<Longrightarrow> y < m \<Longrightarrow> \<exists>b. Equal data x y = Inr b"
    and dn: "int d \<le> n + m"
  shows "below_ok (matches data) n m d v \<Longrightarrow> done_upto (matches data) n m d k v \<Longrightarrow>
    - int d \<le> k \<Longrightarrow> even (k + int d) \<Longrightarrow>
    \<exists>v' found. diagonals data n m (int d) v k = Inr (v', found) \<and>
      below_ok (matches data) n m d v' \<and>
      (found \<longleftrightarrow> (\<exists>k'. k \<le> k' \<and> on_diag d k' \<and> hit (matches data) n m d k')) \<and>
      (\<not> found \<longrightarrow> done_upto (matches data) n m d (int d + 1) v')"
proof (induction "nat (int d - k + 1)" arbitrary: k v rule: less_induct)
  case less
  let ?eq = "matches data"
  show ?case
  proof (cases "k \<le> int d")
    case False
    then have "diagonals data n m (int d) v k = Inr (v, False)"
      by (subst diagonals.simps) simp
    moreover from False have "\<not> (\<exists>k'. k \<le> k' \<and> on_diag d k' \<and> hit ?eq n m d k')"
      by (auto simp: on_diag_def)
    moreover from less.prems(2) False have "done_upto ?eq n m d (int d + 1) v"
      by (auto simp: done_upto_def on_diag_def)
    ultimately show ?thesis using less.prems(1) by simp
  next
    case True
    with less.prems have od: "on_diag d k" by (simp add: on_diag_def)
    let ?v = "v[nat (n + m + 1 + k) := far ?eq n m d k]"
    note step = diagonals_step [OF wb less.prems(1) od dn]
    have bo': "below_ok ?eq n m d ?v"
      by (rule below_ok_update [OF less.prems(1) od dn])
    show ?thesis
    proof (cases "hit ?eq n m d k")
      case h: True
      with step have "diagonals data n m (int d) v k = Inr (?v, True)" by simp
      moreover from h od have "\<exists>k'. k \<le> k' \<and> on_diag d k' \<and> hit ?eq n m d k'" by auto
      ultimately show ?thesis using bo'
        by (intro exI [of _ ?v] exI [of _ True]) simp
    next
      case h: False
      with step have e: "diagonals data n m (int d) v k = diagonals data n m (int d) ?v (k + 2)"
        by simp
      from less.prems(1) have len: "length v = nat (2 * (n + m) + 3)" by (simp add: below_ok_def)
      have du: "done_upto ?eq n m d (k + 2) ?v"
        by (rule done_upto_update [OF less.prems(2) od dn len])
      from True have "nat (int d - (k + 2) + 1) < nat (int d - k + 1)" by simp
      from less.hyps [OF this bo' du] less.prems(3,4)
      obtain v' found where r: "diagonals data n m (int d) ?v (k + 2) = Inr (v', found)"
        "below_ok ?eq n m d v'"
        "found \<longleftrightarrow> (\<exists>k'. k + 2 \<le> k' \<and> on_diag d k' \<and> hit ?eq n m d k')"
        "\<not> found \<longrightarrow> done_upto ?eq n m d (int d + 1) v'"
        by auto
      have "(\<exists>k'. k + 2 \<le> k' \<and> on_diag d k' \<and> hit ?eq n m d k') \<longleftrightarrow>
        (\<exists>k'. k \<le> k' \<and> on_diag d k' \<and> hit ?eq n m d k')"
      proof
        assume "\<exists>k'. k + 2 \<le> k' \<and> on_diag d k' \<and> hit ?eq n m d k'"
        then obtain k' where "k + 2 \<le> k'" "on_diag d k'" "hit ?eq n m d k'" by blast
        then show "\<exists>k'. k \<le> k' \<and> on_diag d k' \<and> hit ?eq n m d k'"
          by (intro exI [of _ k']) simp
      next
        assume "\<exists>k'. k \<le> k' \<and> on_diag d k' \<and> hit ?eq n m d k'"
        then obtain k' where k': "k \<le> k'" "on_diag d k'" "hit ?eq n m d k'" by blast
        with h have "k' \<noteq> k" by auto
        moreover from k'(2) od have "even (k' + int d)" "even (k + int d)"
          by (simp_all add: on_diag_def)
        ultimately have "k + 2 \<le> k'" using k'(1) by presburger
        with k' show "\<exists>k'. k + 2 \<le> k' \<and> on_diag d k' \<and> hit ?eq n m d k'" by blast
      qed
      with r e show ?thesis by simp
    qed
  qed
qed

text \<open>
  \<open>rows_ok\<close>: the invariant of \<open>vs\<close> at the start of the iteration \<open>d\<close>. \<open>edits\<close>: the first
  depth with a hit. \<open>trace\<close>: the calls that \<open>common\<close> makes from the frame
  \<open>(x1, y1, d)\<close> down, when \<open>len(vs) - 1\<close> is \<open>dmax\<close>; \<open>emit\<close> is the frame's own call and
  \<open>prev_point\<close> the point \<open>(x, y)\<close> with which it calls the frame below.
\<close>

definition rows_ok :: "(int \<Rightarrow> int \<Rightarrow> bool) \<Rightarrow> int \<Rightarrow> int \<Rightarrow> nat \<Rightarrow> int list list \<Rightarrow> bool" where
  "rows_ok eq n m d vs =
     (length vs = d \<and>
      (\<forall>d'<d. below_ok eq n m d' (vs ! d') \<and> done_upto eq n m d' (int d' + 1) (vs ! d')))"

definition edits :: "(int \<Rightarrow> int \<Rightarrow> bool) \<Rightarrow> int \<Rightarrow> int \<Rightarrow> nat" where
  "edits eq n m = (LEAST d. \<exists>k. on_diag d k \<and> hit eq n m d k)"

definition emit :: "nat \<Rightarrow> nat \<Rightarrow> int \<Rightarrow> int \<Rightarrow> int \<Rightarrow> call list" where
  "emit dmax d x1 y1 xm =
     (if x1 - xm > 0 \<or> d = dmax then [(xm, y1 - (x1 - xm), x1 - xm)] else [])"

definition prev_point :: "(int \<Rightarrow> int \<Rightarrow> bool) \<Rightarrow> int \<Rightarrow> int \<Rightarrow> nat \<Rightarrow> int \<Rightarrow> int \<times> int" where
  "prev_point eq n m d k =
     (if ins eq n m d k then (start eq n m d k, start eq n m d k - (k + 1))
      else (start eq n m d k - 1, start eq n m d k - 1 - (k - 1)))"

fun trace :: "(int \<Rightarrow> int \<Rightarrow> bool) \<Rightarrow> int \<Rightarrow> int \<Rightarrow> nat \<Rightarrow> nat \<Rightarrow> int \<Rightarrow> int \<Rightarrow> call list" where
  "trace eq n m dmax 0 x1 y1 = emit dmax 0 x1 y1 (start eq n m 0 (x1 - y1))"
| "trace eq n m dmax (Suc d) x1 y1 =
     (case prev_point eq n m (Suc d) (x1 - y1) of (x, y) \<Rightarrow> trace eq n m dmax d x y) @
     emit dmax (Suc d) x1 y1 (start eq n m (Suc d) (x1 - y1))"

lemma below_ok_first:
  assumes "0 \<le> n + m"
  shows "below_ok eq n m 0 ((replicate (nat (2 * (n + m) + 3)) 0)[nat 1 := 0])"
proof -
  from assms have "nat (n + m + 1 + 1) < nat (2 * (n + m) + 3)" by simp
  then have "(replicate (nat (2 * (n + m) + 3)) (0::int))[nat 1 := 0] ! nat (n + m + 1 + 1) = 0"
    by (simp add: nth_list_update)
  then show ?thesis
    by (simp add: below_ok_def read_diag_def below_def)
qed

lemma below_ok_next:
  assumes "below_ok eq n m d w" "done_upto eq n m d (int d + 1) w"
  shows "below_ok eq n m (Suc d) w"
  using assms by (auto simp: below_ok_def done_upto_def read_diag_def below_def on_diag_def)

lemma done_upto_bottom: "done_upto eq n m d (- int d) v"
  by (auto simp: done_upto_def on_diag_def)

lemma depths_row:
  assumes "rows_ok eq n m d vs" "0 \<le> n + m"
  shows "\<exists>v. (if int d = 0 then assign (replicate (nat (2 * (n + m) + 3)) 0) 1 0
              else (case index vs (int d - 1) of
                      Inl e \<Rightarrow> Inl e
                    | Inr w \<Rightarrow> Inr (copy (replicate (nat (2 * (n + m) + 3)) 0) w))) = Inr v \<and>
             below_ok eq n m d v"
proof (cases d)
  case 0
  from assms(2) have "assign (replicate (nat (2 * (n + m) + 3)) (0::int)) 1 0 =
    Inr ((replicate (nat (2 * (n + m) + 3)) 0)[nat 1 := 0])"
    by (simp add: assign_def)
  with below_ok_first [OF assms(2), of eq] 0 show ?thesis by simp
next
  case (Suc d')
  with assms(1) have r: "length vs = Suc d'" "below_ok eq n m d' (vs ! d')"
    "done_upto eq n m d' (int d' + 1) (vs ! d')"
    by (simp_all add: rows_ok_def)
  from r(1) have i: "index vs (int d - 1) = Inr (vs ! d')"
    by (simp add: index_def Suc)
  from r(2) have "length (vs ! d') = nat (2 * (n + m) + 3)" by (simp add: below_ok_def)
  then have c: "copy (replicate (nat (2 * (n + m) + 3)) 0) (vs ! d') = vs ! d'"
    by (simp add: copy_def)
  from below_ok_next [OF r(2,3)] i c Suc show ?thesis by simp
qed

lemma depths_spec:
  assumes wb: "\<And>x y. 0 \<le> x \<Longrightarrow> x < n \<Longrightarrow> 0 \<le> y \<Longrightarrow> y < m \<Longrightarrow> \<exists>b. Equal data x y = Inr b"
    and Dn: "int D \<le> n + m"
    and hitD: "\<exists>k. on_diag D k \<and> hit (matches data) n m D k"
  shows "rows_ok (matches data) n m d vs \<Longrightarrow> d \<le> D \<Longrightarrow>
    (\<forall>d'. d \<le> d' \<and> d' < D \<longrightarrow> (\<forall>k. on_diag d' k \<longrightarrow> \<not> hit (matches data) n m d' k)) \<Longrightarrow>
    \<exists>vs'. depths data n m vs (int d) = Inr vs' \<and> length vs' = Suc D \<and>
      (\<forall>d'\<le>D. below_ok (matches data) n m d' (vs' ! d'))"
proof (induction "D - d" arbitrary: d vs rule: less_induct)
  case less
  let ?eq = "matches data"
  from Dn have nm: "0 \<le> n + m" by simp
  from less.prems(2) Dn have dn: "int d \<le> n + m" by simp
  then have dn': "int d \<le> m + n" by simp
  from depths_row [OF less.prems(1) nm]
  obtain v where v: "(if int d = 0 then assign (replicate (nat (2 * (n + m) + 3)) 0) 1 0
              else (case index vs (int d - 1) of
                      Inl e \<Rightarrow> Inl e
                    | Inr w \<Rightarrow> Inr (copy (replicate (nat (2 * (n + m) + 3)) 0) w))) = Inr v"
    and bo: "below_ok ?eq n m d v" by blast
  from nm have mk: "make_slice (2 * (n + m) + 3) = Inr (replicate (nat (2 * (n + m) + 3)) 0)"
    by (simp add: make_slice_def)
  from diagonals_spec [OF wb dn bo done_upto_bottom]
  obtain v' found where r: "diagonals data n m (int d) v (- int d) = Inr (v', found)"
    "below_ok ?eq n m d v'"
    "found \<longleftrightarrow> (\<exists>k'. - int d \<le> k' \<and> on_diag d k' \<and> hit ?eq n m d k')"
    "\<not> found \<longrightarrow> done_upto ?eq n m d (int d + 1) v'"
    by auto
  have step: "depths data n m vs (int d) =
    (if found then Inr (vs @ [v']) else depths data n m (vs @ [v']) (int d + 1))"
    by (subst depths.simps, simp only: dn' if_True mk v r(1) sum.case prod.case)
  from less.prems(1) have len: "length vs = d" by (simp add: rows_ok_def)
  show ?case
  proof (cases found)
    case True
    with r(3) less.prems(2,3) have "d = D"
      by (metis le_neq_implies_less order_refl)
    have "below_ok ?eq n m d' ((vs @ [v']) ! d')" if "d' \<le> D" for d'
    proof (cases "d' < d")
      case True
      with less.prems(1) len show ?thesis by (simp add: rows_ok_def nth_append)
    next
      case False
      with that \<open>d = D\<close> have "d' = d" by simp
      with len r(2) show ?thesis by (simp add: nth_append)
    qed
    with True step len \<open>d = D\<close> show ?thesis by simp
  next
    case False
    with r(3) hitD have "d \<noteq> D" by (auto simp: on_diag_def)
    with less.prems(2) have lt: "d < D" by simp
    have ro: "rows_ok ?eq n m (Suc d) (vs @ [v'])"
      unfolding rows_ok_def
    proof (intro conjI allI impI)
      show "length (vs @ [v']) = Suc d" using len by simp
    next
      fix d' assume "d' < Suc d"
      then consider "d' < d" | "d' = d" by linarith
      then show "below_ok ?eq n m d' ((vs @ [v']) ! d')"
        using less.prems(1) len r(2) by cases (auto simp: rows_ok_def nth_append)
    next
      fix d' assume "d' < Suc d"
      then consider "d' < d" | "d' = d" by linarith
      then show "done_upto ?eq n m d' (int d' + 1) ((vs @ [v']) ! d')"
        using less.prems(1) len r(4) False
        by cases (auto simp: rows_ok_def nth_append)
    qed
    from lt have "D - Suc d < D - d" by simp
    from less.hyps [OF this ro] lt less.prems(3)
    obtain vs' where "depths data n m (vs @ [v']) (int (Suc d)) = Inr vs'" "length vs' = Suc D"
      "\<forall>d'\<le>D. below_ok ?eq n m d' (vs' ! d')"
      by auto
    moreover have "int (Suc d) = int d + 1" by simp
    ultimately show ?thesis using step False by (simp add: algebra_simps)
  qed
qed

lemma index_nat: "i < length xs \<Longrightarrow> index xs (int i) = Inr (xs ! i)"
  by (simp add: index_def)

lemma common_spec:
  assumes len: "length vs = Suc dmax"
    and rows: "\<forall>d'\<le>dmax. below_ok eq n m d' (vs ! d')"
    and tn: "int dmax \<le> n + m"
  shows "d \<le> dmax \<Longrightarrow> on_diag d (x1 - y1) \<Longrightarrow>
    common vs x1 y1 (int d) = Inr (trace eq n m dmax d x1 y1)"
proof (induction d arbitrary: x1 y1)
  case 0
  from rows have bo: "below_ok eq n m 0 (vs ! 0)" by simp
  then have l: "length (vs ! 0) = nat (2 * (n + m) + 3)" by (simp add: below_ok_def)
  from tn have nm: "0 \<le> n + m" "int (0::nat) \<le> n + m" by simp_all
  note c = centre [OF l nm(1)]
  from len have i: "index vs (int 0) = Inr (vs ! 0)" by (simp add: index_def)
  have 1: "is_insert (vs ! 0) (int 0) (x1 - y1) (int (length (vs ! 0)) div 2 + (x1 - y1))
    = Inr (ins eq n m 0 (x1 - y1))"
    unfolding c by (rule is_insert_spec [OF bo "0.prems"(2) nm(2)])
  from "0.prems"(2) have k0: "x1 - y1 = 0" by (simp add: on_diag_def)
  then have ins0: "ins eq n m 0 (x1 - y1)" by (simp add: ins_def)
  from read_start [OF bo "0.prems"(2) nm(2)] ins0
  have 2: "index (vs ! 0) (int (length (vs ! 0)) div 2 + (x1 - y1) + 1) = Inr (start eq n m 0 (x1 - y1))"
    unfolding c by simp
  from ins0 have t: "ins eq n m 0 (x1 - y1) = True" by simp
  show ?case
    by (subst common.simps, simp only: i 1 2 t if_True sum.case prod.case, simp add: emit_def len)
next
  case (Suc d)
  let ?k = "x1 - y1"
  from rows Suc.prems have bo: "below_ok eq n m (Suc d) (vs ! Suc d)" by simp
  then have l: "length (vs ! Suc d) = nat (2 * (n + m) + 3)" by (simp add: below_ok_def)
  from tn Suc.prems have nm: "0 \<le> n + m" "int (Suc d) \<le> n + m" by simp_all
  note c = centre [OF l nm(1)]
  from len Suc.prems have i: "index vs (int (Suc d)) = Inr (vs ! Suc d)" by (intro index_nat) simp
  have 1: "is_insert (vs ! Suc d) (int (Suc d)) ?k (int (length (vs ! Suc d)) div 2 + ?k)
    = Inr (ins eq n m (Suc d) ?k)"
    unfolding c by (rule is_insert_spec [OF bo Suc.prems(2) nm(2)])
  note rs = read_start [OF bo Suc.prems(2) nm(2)]
  show ?case
  proof (cases "ins eq n m (Suc d) ?k")
    case True
    with rs have 2: "index (vs ! Suc d) (int (length (vs ! Suc d)) div 2 + ?k + 1)
      = Inr (start eq n m (Suc d) ?k)"
      unfolding c by simp
    from ins_not_top [OF Suc.prems(2) True] have "?k \<noteq> int (Suc d)" by simp
    from on_diag_up [OF Suc.prems(2) this]
    have "on_diag d (start eq n m (Suc d) ?k - (start eq n m (Suc d) ?k - (?k + 1)))"
      by (simp add: algebra_simps)
    from Suc.IH [OF _ this] Suc.prems(1)
    have 3: "common vs (start eq n m (Suc d) ?k) (start eq n m (Suc d) ?k - (?k + 1)) (int d)
      = Inr (trace eq n m dmax d (start eq n m (Suc d) ?k) (start eq n m (Suc d) ?k - (?k + 1)))"
      by simp
    have e: "int (Suc d) - 1 = int d" "(0 < int (Suc d)) = True" by simp_all
    from True have t: "ins eq n m (Suc d) (x1 - y1) = True" by simp
    show ?thesis
      by (subst common.simps, simp only: i 1 2 3 t e if_True sum.case prod.case,
          auto simp add: emit_def prev_point_def True len)
  next
    case False
    with rs have 2: "index (vs ! Suc d) (int (length (vs ! Suc d)) div 2 + ?k - 1)
      = Inr (start eq n m (Suc d) ?k - 1)"
      unfolding c by (auto split: sum.splits)
    from not_ins_not_bottom [OF False] have "?k \<noteq> - int (Suc d)" .
    from on_diag_down [OF Suc.prems(2) this]
    have "on_diag d (start eq n m (Suc d) ?k - 1 - (start eq n m (Suc d) ?k - 1 - (?k - 1)))"
      by (simp add: algebra_simps)
    from Suc.IH [OF _ this] Suc.prems(1)
    have 3: "common vs (start eq n m (Suc d) ?k - 1) (start eq n m (Suc d) ?k - 1 - (?k - 1)) (int d)
      = Inr (trace eq n m dmax d (start eq n m (Suc d) ?k - 1) (start eq n m (Suc d) ?k - 1 - (?k - 1)))"
      by simp
    have e: "int (Suc d) - 1 = int d" "(0 < int (Suc d)) = True" by simp_all
    from False have t: "ins eq n m (Suc d) (x1 - y1) = False" by simp
    show ?thesis
      by (subst common.simps, simp only: i 1 2 3 t e if_True if_False sum.case prod.case,
          auto simp add: emit_def prev_point_def False len)
  qed
qed

lemma reach_hit:
  assumes "reach eq n m d n m"
  shows "on_diag d (n - m) \<and> hit eq n m d (n - m)"
proof -
  from far_complete [OF assms] have "n \<le> far eq n m d (n - m)" .
  then show ?thesis
    using reach_on_diag [OF assms] by (simp add: hit_def)
qed

lemma hit_reach:
  assumes "on_diag d k" "hit eq n m d k" "0 \<le> n" "0 \<le> m"
  shows "\<exists>d'. reach eq n m d' n m \<and>
    int d' + (far eq n m d k - n) + (far eq n m d k - k - m) \<le> int d"
proof -
  from assms(2) have e: "min (far eq n m d k) n = n" "min (far eq n m d k - k) m = m"
    by (simp_all add: hit_def)
  from reach_clamp [OF far_sound [OF assms(1)] assms(3,4), of eq] show ?thesis
    by (simp only: e)
qed

lemma hit_exists:
  assumes "0 \<le> n" "0 \<le> m"
  shows "on_diag (nat n + nat m) (n - m) \<and> hit eq n m (nat n + nat m) (n - m)"
proof -
  from reach_all_edits [of eq n m "nat n" "nat m"] assms
  have "reach eq n m (nat n + nat m) n m" by simp
  then show ?thesis by (rule reach_hit)
qed

lemma edits_hit:
  assumes "0 \<le> n" "0 \<le> m"
  shows "\<exists>k. on_diag (edits eq n m) k \<and> hit eq n m (edits eq n m) k"
  unfolding edits_def
  by (rule LeastI_ex) (use hit_exists [OF assms] in blast)

lemma edits_le:
  assumes "0 \<le> n" "0 \<le> m"
  shows "edits eq n m \<le> nat n + nat m"
  unfolding edits_def
  by (rule Least_le) (use hit_exists [OF assms] in blast)

lemma edits_least: "d < edits eq n m \<Longrightarrow> on_diag d k \<Longrightarrow> \<not> hit eq n m d k"
  unfolding edits_def using not_less_Least by blast

lemma edits_min: "reach eq n m d n m \<Longrightarrow> edits eq n m \<le> d"
  using reach_hit edits_least by (metis not_le_imp_less)

lemma edits_exact:
  assumes "0 \<le> n" "0 \<le> m" "on_diag (edits eq n m) k" "hit eq n m (edits eq n m) k"
  shows "reach eq n m (edits eq n m) n m \<and> far eq n m (edits eq n m) k = n \<and> k = n - m"
proof -
  from hit_reach [OF assms(3,4,1,2)]
  obtain d' where d': "reach eq n m d' n m"
    "int d' + (far eq n m (edits eq n m) k - n) + (far eq n m (edits eq n m) k - k - m)
      \<le> int (edits eq n m)" by blast
  from edits_min [OF d'(1)] have "edits eq n m \<le> d'" .
  with d'(2) assms(4) have "d' = edits eq n m" "far eq n m (edits eq n m) k = n"
    "far eq n m (edits eq n m) k - k = m"
    by (simp_all add: hit_def)
  with d'(1) show ?thesis by auto
qed

lemma edits_reach:
  assumes "0 \<le> n" "0 \<le> m"
  shows "reach eq n m (edits eq n m) n m"
  using edits_hit [OF assms, of eq] edits_exact [OF assms] by blast

lemma edits_far:
  assumes "0 \<le> n" "0 \<le> m"
  shows "far eq n m (edits eq n m) (n - m) = n"
  using edits_hit [OF assms, of eq] edits_exact [OF assms, of eq] by metis

lemma rows_ok_empty: "rows_ok eq n m 0 []"
  by (simp add: rows_ok_def)

lemma well_behavedD:
  assumes "well_behaved data" "Lengths data = (n, m)"
  shows "0 \<le> n" "0 \<le> m"
    "\<And>x y. 0 \<le> x \<Longrightarrow> x < n \<Longrightarrow> 0 \<le> y \<Longrightarrow> y < m \<Longrightarrow> \<exists>b. Equal data x y = Inr b"
  using assms by (auto simp: well_behaved_def)

lemma Diff_spec:
  assumes wb: "well_behaved data" and l: "Lengths data = (n, m)"
  shows "Diff data =
    Inr (int (edits (matches data) n m),
         trace (matches data) n m (edits (matches data) n m) (edits (matches data) n m) n m)"
proof -
  let ?eq = "matches data"
  let ?D = "edits ?eq n m"
  note w = well_behavedD [OF wb l]
  from edits_le [OF w(1,2), of ?eq] w(1,2) have Dn: "int ?D \<le> n + m" by simp
  have nohit: "\<forall>d'. 0 \<le> d' \<and> d' < ?D \<longrightarrow> (\<forall>k. on_diag d' k \<longrightarrow> \<not> hit ?eq n m d' k)"
    using edits_least by blast
  from depths_spec [OF w(3) Dn edits_hit [OF w(1,2)] rows_ok_empty _ nohit]
  obtain vs where vs: "depths data n m [] 0 = Inr vs" "length vs = Suc ?D"
    "\<forall>d'\<le>?D. below_ok ?eq n m d' (vs ! d')"
    by auto
  from reach_on_diag [OF edits_reach [OF w(1,2), of ?eq]] have od: "on_diag ?D (n - m)" .
  from common_spec [OF vs(2,3) Dn order_refl od]
  have "common vs n m (int ?D) = Inr (trace ?eq n m ?D ?D n m)" .
  moreover from vs(2) have "int (length vs) - 1 = int ?D" by simp
  ultimately show ?thesis
    by (simp add: Diff_def l vs(1))
qed

section \<open>The reference: the dynamic-programming table of the longest common subsequence\<close>

text \<open>
  \<open>lcs_table eq i j\<close> is the length of a longest common subsequence of the first \<open>i\<close>
  elements of the left sequence and the first \<open>j\<close> elements of the right one, by the
  textbook recurrence; \<open>eq x y\<close> says that element \<open>x\<close> of the left sequence equals
  element \<open>y\<close> of the right one.
\<close>

fun lcs_table :: "(int \<Rightarrow> int \<Rightarrow> bool) \<Rightarrow> nat \<Rightarrow> nat \<Rightarrow> nat" where
  "lcs_table eq 0 j = 0"
| "lcs_table eq (Suc i) 0 = 0"
| "lcs_table eq (Suc i) (Suc j) =
     (if eq (int i) (int j) then Suc (lcs_table eq i j)
      else max (lcs_table eq i (Suc j)) (lcs_table eq (Suc i) j))"

lemma lcs_table_0_right [simp]: "lcs_table eq i 0 = 0"
  by (cases i) simp_all







section \<open>The calls of the backtrace\<close>

text \<open>
  \<open>frame\<close>: the invariant of the arguments of \<open>common\<close>, \<open>x1\<close> is the \<open>x\<close> stored for
  its diagonal at depth \<open>d\<close>. \<open>run_ok\<close>: a call \<open>(i, j, l)\<close> is a run of \<open>l\<close> equal
  elements inside the two sequences, and the run cannot be extended at its end.
  \<open>before c c'\<close>: the run \<open>c\<close> is not empty and \<open>c'\<close> starts after it, at or after its
  end in both sequences and strictly after its end in one of them. \<open>total\<close>: the number
  of elements in the runs.
\<close>

definition frame :: "(int \<Rightarrow> int \<Rightarrow> bool) \<Rightarrow> int \<Rightarrow> int \<Rightarrow> nat \<Rightarrow> int \<Rightarrow> int \<Rightarrow> bool" where
  "frame eq n m d x1 y1 = (on_diag d (x1 - y1) \<and> x1 = far eq n m d (x1 - y1))"

definition run_ok :: "(int \<Rightarrow> int \<Rightarrow> bool) \<Rightarrow> int \<Rightarrow> int \<Rightarrow> call \<Rightarrow> bool" where
  "run_ok eq n m c =
     (case c of (i, j, l) \<Rightarrow>
        0 \<le> i \<and> 0 \<le> j \<and> 0 \<le> l \<and> i + l \<le> n \<and> j + l \<le> m \<and>
        (\<forall>t. 0 \<le> t \<and> t < l \<longrightarrow> eq (i + t) (j + t)) \<and>
        \<not> (i + l < n \<and> j + l < m \<and> eq (i + l) (j + l)))"

definition before :: "call \<Rightarrow> call \<Rightarrow> bool" where
  "before c c' =
     (case c of (i, j, l) \<Rightarrow> case c' of (i', j', l') \<Rightarrow>
        0 < l \<and> i < i' \<and> j < j' \<and> i + l \<le> i' \<and> j + l \<le> j' \<and> (i + l < i' \<or> j + l < j'))"

definition ends_by :: "int \<Rightarrow> int \<Rightarrow> call \<Rightarrow> bool" where
  "ends_by x y c = (case c of (i, j, l) \<Rightarrow> i + l \<le> x \<and> j + l \<le> y)"

definition total :: "call list \<Rightarrow> int" where
  "total cs = sum_list (map (\<lambda>(i, j, l). l) cs)"

lemma frame_0: "frame eq n m 0 x1 y1 \<Longrightarrow> x1 = y1 \<and> start eq n m 0 (x1 - y1) = 0"
  by (simp add: frame_def on_diag_def start_def below_def ins_def)

lemma frame_far: "on_diag d k \<Longrightarrow> frame eq n m d (far eq n m d k) (far eq n m d k - k)"
proof -
  assume o: "on_diag d k"
  have e: "far eq n m d k - (far eq n m d k - k) = k" by simp
  show ?thesis unfolding frame_def e using o by simp
qed

lemma frame_prev:
  assumes "frame eq n m (Suc d) x1 y1"
  shows "\<exists>px py. prev_point eq n m (Suc d) (x1 - y1) = (px, py) \<and> frame eq n m d px py \<and>
    ((start eq n m (Suc d) (x1 - y1) = px \<and> start eq n m (Suc d) (x1 - y1) - (x1 - y1) = py + 1) \<or>
     (start eq n m (Suc d) (x1 - y1) = px + 1 \<and> start eq n m (Suc d) (x1 - y1) - (x1 - y1) = py))"
proof -
  let ?k = "x1 - y1"
  from assms have od: "on_diag (Suc d) ?k" by (simp add: frame_def)
  show ?thesis
  proof (cases "ins eq n m (Suc d) ?k")
    case True
    from ins_not_top [OF od True] have "?k \<noteq> int (Suc d)" by simp
    from on_diag_up [OF od this] have o: "on_diag d (?k + 1)" .
    from True have s: "start eq n m (Suc d) ?k = far eq n m d (?k + 1)"
      by (simp add: start_def below_def)
    have p: "prev_point eq n m (Suc d) ?k =
      (far eq n m d (?k + 1), far eq n m d (?k + 1) - (?k + 1))"
      using True by (simp add: prev_point_def s)
    have "frame eq n m d (far eq n m d (?k + 1)) (far eq n m d (?k + 1) - (?k + 1))"
      using o by (rule frame_far)
    with p s show ?thesis by simp
  next
    case False
    from on_diag_down [OF od not_ins_not_bottom [OF False]] have o: "on_diag d (?k - 1)" .
    from False have s: "start eq n m (Suc d) ?k = far eq n m d (?k - 1) + 1"
      by (simp add: start_def below_def)
    have p: "prev_point eq n m (Suc d) ?k =
      (far eq n m d (?k - 1), far eq n m d (?k - 1) - (?k - 1))"
      using False by (simp add: prev_point_def s)
    have "frame eq n m d (far eq n m d (?k - 1)) (far eq n m d (?k - 1) - (?k - 1))"
      using o by (rule frame_far)
    with p s show ?thesis by simp
  qed
qed

lemma frame_run:
  assumes "frame eq n m d x1 y1"
  shows "0 \<le> start eq n m d (x1 - y1)" "0 \<le> start eq n m d (x1 - y1) - (x1 - y1)"
    "start eq n m d (x1 - y1) \<le> x1"
    "\<And>t. 0 \<le> t \<Longrightarrow> t < x1 - start eq n m d (x1 - y1) \<Longrightarrow>
       eq (start eq n m d (x1 - y1) + t) (start eq n m d (x1 - y1) - (x1 - y1) + t) \<and>
       start eq n m d (x1 - y1) + t < n \<and> start eq n m d (x1 - y1) - (x1 - y1) + t < m"
    "\<not> (x1 < n \<and> y1 < m \<and> eq x1 y1)"
proof -
  let ?k = "x1 - y1" and ?s = "start eq n m d (x1 - y1)"
  from assms have od: "on_diag d ?k" and x1: "x1 = far eq n m d ?k" by (simp_all add: frame_def)
  from start_nonneg [OF od, of eq n m] show "0 \<le> ?s" "0 \<le> ?s - ?k" by simp_all
  from start_le_far [OF od, of eq n m] x1 show "?s \<le> x1" by simp
  from far_stop [of eq n m d ?k] x1 show "\<not> (x1 < n \<and> y1 < m \<and> eq x1 y1)" by auto
  fix t :: int
  assume t: "0 \<le> t" "t < x1 - ?s"
  from x1 far_start [OF od, of eq n m] have "x1 = slide eq n m ?s (?s - ?k)" by simp
  with t have "?s \<le> ?s + t" "?s + t < slide eq n m ?s (?s - ?k)" by simp_all
  from slide_match [OF this] show "eq (?s + t) (?s - ?k + t) \<and> ?s + t < n \<and> ?s - ?k + t < m"
    by (simp add: algebra_simps)
qed

text \<open>The call a frame makes, if it makes one.\<close>

lemma frame_call:
  assumes f: "frame eq n m d x1 y1"
    and e: "0 < x1 - start eq n m d (x1 - y1) \<or> (x1 \<le> n \<and> y1 \<le> m)"
  shows "run_ok eq n m (start eq n m d (x1 - y1), y1 - (x1 - start eq n m d (x1 - y1)),
           x1 - start eq n m d (x1 - y1))"
proof -
  let ?s = "start eq n m d (x1 - y1)"
  note r = frame_run [OF f]
  have y: "y1 - (x1 - ?s) = ?s - (x1 - y1)" by simp
  have b: "x1 \<le> n \<and> y1 \<le> m"
  proof (cases "0 < x1 - ?s")
    case True
    then have "0 \<le> x1 - ?s - 1" "x1 - ?s - 1 < x1 - ?s" by simp_all
    from r(4) [OF this] show ?thesis by simp
  next
    case False
    with e show ?thesis by simp
  qed
  have m: "eq (?s + t) (?s - (x1 - y1) + t)" if "0 \<le> t" "t < x1 - ?s" for t
    using r(4) [OF that] by simp
  show ?thesis
    unfolding run_ok_def y using r(1,2,3,5) b m by simp
qed

lemma emit_total:
  assumes "xm \<le> x1"
  shows "total (emit dmax d x1 y1 xm) = x1 - xm"
  using assms by (auto simp: emit_def total_def)

lemma total_append: "total (xs @ ys) = total xs + total ys"
  by (simp add: total_def)

lemma trace_total:
  "frame eq n m d x1 y1 \<Longrightarrow> x1 + y1 = int d + 2 * total (trace eq n m dmax d x1 y1)"
proof (induction d arbitrary: x1 y1)
  case 0
  from frame_0 [OF 0] have e: "x1 = y1" "start eq n m 0 (x1 - y1) = 0" by blast+
  from frame_run(3) [OF 0] have "0 \<le> x1" by (simp only: e(2))
  from emit_total [OF this, of dmax 0 y1]
  have "total (trace eq n m dmax 0 x1 y1) = x1" by (simp add: e(2))
  with e(1) show ?case by simp
next
  case (Suc d)
  let ?s = "start eq n m (Suc d) (x1 - y1)"
  from frame_prev [OF Suc.prems] obtain px py where p:
    "prev_point eq n m (Suc d) (x1 - y1) = (px, py)" "frame eq n m d px py"
    "(?s = px \<and> ?s - (x1 - y1) = py + 1) \<or> (?s = px + 1 \<and> ?s - (x1 - y1) = py)"
    by blast
  from Suc.IH [OF p(2)] have "px + py = int d + 2 * total (trace eq n m dmax d px py)" .
  moreover from emit_total [OF frame_run(3) [OF Suc.prems], of dmax "Suc d" y1]
  have "total (emit dmax (Suc d) x1 y1 ?s) = x1 - ?s" .
  ultimately show ?case
    using p(1,3) by (auto simp: total_append)
qed

lemma trace_runs:
  "frame eq n m d x1 y1 \<Longrightarrow> d \<le> dmax \<Longrightarrow> d = dmax \<longrightarrow> x1 \<le> n \<and> y1 \<le> m \<Longrightarrow>
   \<forall>c\<in>set (trace eq n m dmax d x1 y1). run_ok eq n m c \<and> ends_by x1 y1 c"
proof (induction d arbitrary: x1 y1)
  case 0
  let ?s = "start eq n m 0 (x1 - y1)"
  show ?case
  proof (cases "0 < x1 - ?s \<or> 0 = dmax")
    case True
    with 0 have "0 < x1 - ?s \<or> (x1 \<le> n \<and> y1 \<le> m)" by auto
    from frame_call [OF "0.prems"(1) this] True show ?thesis
      by (auto simp: emit_def ends_by_def)
  next
    case False
    then show ?thesis by (simp add: emit_def)
  qed
next
  case (Suc d)
  let ?s = "start eq n m (Suc d) (x1 - y1)"
  from frame_prev [OF Suc.prems(1)] obtain px py where p:
    "prev_point eq n m (Suc d) (x1 - y1) = (px, py)" "frame eq n m d px py"
    "(?s = px \<and> ?s - (x1 - y1) = py + 1) \<or> (?s = px + 1 \<and> ?s - (x1 - y1) = py)"
    by blast
  note r = frame_run [OF Suc.prems(1)]
  have le: "px \<le> x1" "py \<le> y1" using p(3) r(3) by auto
  from Suc.prems(2) have "d \<le> dmax" "d = dmax \<longrightarrow> px \<le> n \<and> py \<le> m" by simp_all
  from Suc.IH [OF p(2) this]
  have ih: "\<forall>c\<in>set (trace eq n m dmax d px py). run_ok eq n m c \<and> ends_by px py c" .
  have old: "run_ok eq n m c \<and> ends_by x1 y1 c" if "c \<in> set (trace eq n m dmax d px py)" for c
    using ih that le by (auto simp: ends_by_def)
  have new: "run_ok eq n m c \<and> ends_by x1 y1 c" if "c \<in> set (emit dmax (Suc d) x1 y1 ?s)" for c
  proof (cases "0 < x1 - ?s \<or> Suc d = dmax")
    case True
    with Suc.prems(3) have "0 < x1 - ?s \<or> (x1 \<le> n \<and> y1 \<le> m)" by auto
    from frame_call [OF Suc.prems(1) this] True that show ?thesis
      by (auto simp: emit_def ends_by_def)
  next
    case False
    with that show ?thesis by (simp add: emit_def)
  qed
  from old new p(1) show ?case by auto
qed

lemma trace_positive:
  "d < dmax \<Longrightarrow> \<forall>c\<in>set (trace eq n m dmax d x1 y1). 0 < snd (snd c)"
proof (induction d arbitrary: x1 y1)
  case 0
  then show ?case by (simp add: emit_def)
next
  case (Suc d)
  then have "\<forall>c\<in>set (trace eq n m dmax d px py). 0 < snd (snd c)" for px py by simp
  with Suc.prems show ?case
    by (auto simp: emit_def split: prod.splits)
qed

lemma trace_sorted:
  "frame eq n m d x1 y1 \<Longrightarrow> d \<le> dmax \<Longrightarrow> sorted_wrt before (trace eq n m dmax d x1 y1)"
proof (induction d arbitrary: x1 y1)
  case 0
  show ?case by (simp add: emit_def)
next
  case (Suc d)
  let ?s = "start eq n m (Suc d) (x1 - y1)"
  from frame_prev [OF Suc.prems(1)] obtain px py where p:
    "prev_point eq n m (Suc d) (x1 - y1) = (px, py)" "frame eq n m d px py"
    "(?s = px \<and> ?s - (x1 - y1) = py + 1) \<or> (?s = px + 1 \<and> ?s - (x1 - y1) = py)"
    by blast
  from Suc.prems(2) have d: "d \<le> dmax" "d < dmax" by simp_all
  from Suc.IH [OF p(2) d(1)] have 1: "sorted_wrt before (trace eq n m dmax d px py)" .
  have 2: "sorted_wrt before (emit dmax (Suc d) x1 y1 ?s)" by (simp add: emit_def)
  from d(2) have "d = dmax \<longrightarrow> px \<le> n \<and> py \<le> m" by simp
  note e = trace_runs [OF p(2) d(1) this] and pos = trace_positive [OF d(2), of eq n m px py]
  have 3: "before c c'" if "c \<in> set (trace eq n m dmax d px py)"
    "c' \<in> set (emit dmax (Suc d) x1 y1 ?s)" for c c'
  proof -
    obtain i j l where c: "c = (i, j, l)" by (cases c)
    from that(2) have c': "c' = (?s, y1 - (x1 - ?s), x1 - ?s)"
      by (auto simp: emit_def split: if_splits)
    from e that(1) c have "i + l \<le> px" "j + l \<le> py" by (auto simp: ends_by_def)
    moreover from pos that(1) c have "0 < l" by auto
    moreover have "y1 - (x1 - ?s) = ?s - (x1 - y1)" by simp
    ultimately show ?thesis
      using p(3) unfolding c c' before_def by auto
  qed
  from 1 2 3 p(1) show ?case
    by (simp add: sorted_wrt_append)
qed

lemma trace_last:
  "\<exists>cs. trace eq n m dmax dmax x1 y1 =
     cs @ [(start eq n m dmax (x1 - y1), y1 - (x1 - start eq n m dmax (x1 - y1)),
            x1 - start eq n m dmax (x1 - y1))]"
  by (cases dmax) (auto simp: emit_def split: prod.splits)





text \<open>The outermost frame of a run of \<open>Diff\<close>.\<close>

lemma top_frame:
  assumes "0 \<le> n" "0 \<le> m"
  shows "frame eq n m (edits eq n m) n m"
  using reach_on_diag [OF edits_reach [OF assms, of eq]] edits_far [OF assms, of eq]
  by (simp add: frame_def)

section \<open>Putting the sequences back together, and the matched pairs\<close>










section \<open>Runs cannot be extended\<close>

text \<open>Where the last of a list of calls ends, in the left and in the right sequence.\<close>

fun end_left :: "int \<Rightarrow> call list \<Rightarrow> int" where
  "end_left p [] = p"
| "end_left p ((i, j, n) # cs) = end_left (i + n) cs"

fun end_right :: "int \<Rightarrow> call list \<Rightarrow> int" where
  "end_right q [] = q"
| "end_right q ((i, j, n) # cs) = end_right (j + n) cs"

lemma end_left_snoc: "end_left p (cs @ [(i, j, n)]) = i + n"
  by (induction p cs rule: end_left.induct) simp_all

lemma end_right_snoc: "end_right q (cs @ [(i, j, n)]) = j + n"
  by (induction q cs rule: end_right.induct) simp_all

text \<open>
  A run cannot be extended at its start into the gap before it: when elements are
  unmatched on both sides before the run (\<open>p\<close> and \<open>q\<close> are where the call before
  ended), the last unmatched element on the left and the last one on the right are not
  equal.
\<close>

fun start_maximal :: "(int \<Rightarrow> int \<Rightarrow> bool) \<Rightarrow> int \<Rightarrow> int \<Rightarrow> call list \<Rightarrow> bool" where
  "start_maximal eq p q [] = True"
| "start_maximal eq p q ((i, j, l) # cs) =
     (\<not> (p < i \<and> q < j \<and> eq (i - 1) (j - 1)) \<and> start_maximal eq (i + l) (j + l) cs)"

lemma start_maximal_snoc:
  "start_maximal eq p q (cs @ [(i, j, l)]) \<longleftrightarrow>
   start_maximal eq p q cs \<and> \<not> (end_left p cs < i \<and> end_right q cs < j \<and> eq (i - 1) (j - 1))"
  by (induction eq p q cs rule: start_maximal.induct) auto

lemma reach_edits:
  "reach eq n m d x y \<Longrightarrow> reach eq n m (d + a + b) (x + int a) (y + int b)"
proof (induction b)
  case 0
  then have "reach eq n m (d + a) (x + int a) y"
  proof (induction a)
    case 0
    then show ?case by simp
  next
    case (Suc a)
    from reach.right [OF Suc.IH [OF Suc.prems]] show ?case by (simp add: algebra_simps)
  qed
  then show ?case by simp
next
  case (Suc b)
  from reach.down [OF Suc.IH [OF Suc.prems]] show ?case by (simp add: algebra_simps)
qed

lemma frame_reach: "frame eq n m d x1 y1 \<Longrightarrow> reach eq n m d x1 y1"
proof -
  assume f: "frame eq n m d x1 y1"
  then have "on_diag d (x1 - y1)" "x1 = far eq n m d (x1 - y1)" by (simp_all add: frame_def)
  with far_sound [of d "x1 - y1" eq n m] show ?thesis by simp
qed

lemma start_beats:
  assumes "on_diag (Suc (Suc e)) k" "on_diag e k"
  shows "far eq n m e k < start eq n m (Suc (Suc e)) k"
proof -
  from assms(2) have "k - 1 \<noteq> int (Suc e)" by (simp add: on_diag_def)
  from far_Suc_ge_up [OF this, of eq n m] have 1: "far eq n m e k \<le> far eq n m (Suc e) (k - 1)"
    by (simp del: far.simps)
  show ?thesis
  proof (cases "ins eq n m (Suc (Suc e)) k")
    case True
    from assms(2) have "k \<noteq> - int (Suc (Suc e))" by (simp add: on_diag_def)
    with True have "far eq n m (Suc e) (k - 1) < far eq n m (Suc e) (k + 1)"
      by (simp add: ins_def below_def del: far.simps)
    with 1 True show ?thesis by (simp add: start_def below_def del: far.simps)
  next
    case False
    with 1 show ?thesis by (simp add: start_def below_def del: far.simps)
  qed
qed

text \<open>
  The end of the last call of a frame's trace (the origin when there is no call) is
  reached by a script whose length the calls account for.
\<close>

lemma trace_anchor:
  "frame eq n m d x1 y1 \<Longrightarrow> d \<le> dmax \<Longrightarrow> d = dmax \<longrightarrow> x1 \<le> n \<and> y1 \<le> m \<Longrightarrow>
   (\<exists>d0. reach eq n m d0 (end_left 0 (trace eq n m dmax d x1 y1))
            (end_right 0 (trace eq n m dmax d x1 y1)) \<and>
      int d0 = end_left 0 (trace eq n m dmax d x1 y1) + end_right 0 (trace eq n m dmax d x1 y1)
        - 2 * total (trace eq n m dmax d x1 y1)) \<and>
   end_left 0 (trace eq n m dmax d x1 y1) \<le> x1 \<and>
   end_right 0 (trace eq n m dmax d x1 y1) \<le> y1 \<and>
   start_maximal eq 0 0 (trace eq n m dmax d x1 y1)"
proof (induction d arbitrary: x1 y1)
  case 0
  from frame_0 [OF "0.prems"(1)] have e: "x1 = y1" "start eq n m 0 (x1 - y1) = 0" by blast+
  from frame_run(3) [OF "0.prems"(1)] have x: "0 \<le> x1" by (simp only: e(2))
  show ?case
  proof (cases "0 < x1 \<or> dmax = 0")
    case True
    then have t: "trace eq n m dmax 0 x1 y1 = [(0, 0, x1)]"
      using e by (auto simp: emit_def)
    from frame_reach [OF "0.prems"(1)] have "reach eq n m 0 x1 y1" .
    then show ?thesis
      unfolding t using e(1) by (auto simp: total_def intro!: exI [of _ 0])
  next
    case False
    then have t: "trace eq n m dmax 0 x1 y1 = []"
      using e by (auto simp: emit_def)
    show ?thesis
      unfolding t using x e(1) reach.origin [of eq n m]
      by (auto simp: total_def intro!: exI [of _ 0])
  qed
next
  case (Suc d)
  let ?k = "x1 - y1"
  let ?s = "start eq n m (Suc d) ?k"
  from frame_prev [OF Suc.prems(1)] obtain px py where p:
    "prev_point eq n m (Suc d) ?k = (px, py)" "frame eq n m d px py"
    "(?s = px \<and> ?s - ?k = py + 1) \<or> (?s = px + 1 \<and> ?s - ?k = py)"
    by blast
  note r = frame_run [OF Suc.prems(1)]
  let ?T' = "trace eq n m dmax d px py"
  from Suc.prems(2) have d: "d \<le> dmax" "d = dmax \<longrightarrow> px \<le> n \<and> py \<le> m" by simp_all
  from Suc.IH [OF p(2) d] obtain d0 where ih:
    "reach eq n m d0 (end_left 0 ?T') (end_right 0 ?T')"
    "int d0 = end_left 0 ?T' + end_right 0 ?T' - 2 * total ?T'"
    "end_left 0 ?T' \<le> px" "end_right 0 ?T' \<le> py" "start_maximal eq 0 0 ?T'"
    by blast
  have tr: "trace eq n m dmax (Suc d) x1 y1 = ?T' @ emit dmax (Suc d) x1 y1 ?s"
    by (simp add: p(1))
  show ?case
  proof (cases "0 < x1 - ?s \<or> Suc d = dmax")
    case False
    then have t: "trace eq n m dmax (Suc d) x1 y1 = ?T'"
      by (simp add: p(1) emit_def)
    from p(3) r(3) ih(3,4) have "end_left 0 ?T' \<le> x1" "end_right 0 ?T' \<le> y1" by auto
    with ih show ?thesis unfolding t by blast
  next
    case True
    let ?c = "(?s, y1 - (x1 - ?s), x1 - ?s)"
    from True have t: "trace eq n m dmax (Suc d) x1 y1 = ?T' @ [?c]"
      by (simp add: p(1) emit_def)
    have el: "end_left 0 (?T' @ [?c]) = x1" "end_right 0 (?T' @ [?c]) = y1"
      by (simp_all add: end_left_snoc end_right_snoc)
    from trace_total [OF Suc.prems(1), of dmax]
    have tot: "x1 + y1 = int (Suc d) + 2 * total (?T' @ [?c])" by (simp only: t)
    have A: "\<exists>d0. reach eq n m d0 x1 y1 \<and> int d0 = x1 + y1 - 2 * total (?T' @ [?c])"
      using frame_reach [OF Suc.prems(1)] tot by (intro exI [of _ "Suc d"]) simp
    have inr: "?s - 1 < n \<and> ?s - ?k - 1 < m"
    proof (cases "0 < x1 - ?s")
      case True
      from r(4) [of 0] True show ?thesis by simp
    next
      case False
      with True Suc.prems(3) r(3) show ?thesis by auto
    qed
    have C: "\<not> (end_left 0 ?T' < ?s \<and> end_right 0 ?T' < y1 - (x1 - ?s) \<and>
      eq (?s - 1) (y1 - (x1 - ?s) - 1))"
    proof
      assume a: "end_left 0 ?T' < ?s \<and> end_right 0 ?T' < y1 - (x1 - ?s) \<and>
        eq (?s - 1) (y1 - (x1 - ?s) - 1)"
      let ?ei = "end_left 0 ?T'" and ?ej = "end_right 0 ?T'"
      have y: "y1 - (x1 - ?s) = ?s - ?k" by simp
      from a have lt: "?ei \<le> ?s - 1" "?ej \<le> ?s - ?k - 1" and m: "eq (?s - 1) (?s - ?k - 1)"
        by (simp_all add: y)
      define e where "e = d0 + nat (?s - 1 - ?ei) + nat (?s - ?k - 1 - ?ej)"
      from reach_edits [OF ih(1), of "nat (?s - 1 - ?ei)" "nat (?s - ?k - 1 - ?ej)"] lt
      have "reach eq n m e (?s - 1) (?s - ?k - 1)"
        by (simp add: e_def)
      from reach.diag [OF this] inr m
      have re: "reach eq n m e ?s (?s - ?k)"
        by simp
      from trace_total [OF p(2), of dmax] have pt: "px + py = int d + 2 * total ?T'" .
      from p(3) have one: "?s + (?s - ?k) = px + py + 1" by auto
      from lt have "int e = int d0 + (?s - 1 - ?ei) + (?s - ?k - 1 - ?ej)"
        by (simp add: e_def)
      with ih(2) pt one have "int e = int d - 1" by linarith
      then have dS: "d = Suc e" by linarith
      from far_complete [OF re] have "?s \<le> far eq n m e ?k" by simp
      moreover from reach_on_diag [OF re] have "on_diag e ?k" by simp
      moreover from Suc.prems(1) dS have "on_diag (Suc (Suc e)) ?k" by (simp add: frame_def)
      ultimately show False
        using start_beats [of e ?k eq n m] dS by simp
    qed
    from ih(5) C have "start_maximal eq 0 0 (?T' @ [?c])"
      by (simp only: start_maximal_snoc) simp
    with A show ?thesis unfolding t el by simp
  qed
qed

section \<open>Protocols, and the result of \<open>Diff\<close> on a well-behaved one\<close>




lemma well_behaved_sideBySide: "well_behaved (sideBySide_Interface a b)"
  by (simp add: well_behaved_def sideBySide_Interface_def index_def)

lemma well_behaved_annotate: "well_behaved (annotate_Interface a b)"
  by (simp add: well_behaved_def annotate_Interface_def index_def)






lemma Diff_calls:
  assumes wb: "well_behaved data" and l: "Lengths data = (n, m)"
  shows "\<exists>calls. Diff data = Inr (int (edits (matches data) n m), calls) \<and>
    calls = trace (matches data) n m (edits (matches data) n m) (edits (matches data) n m) n m \<and>
    sorted_wrt before calls \<and>
    (\<forall>c\<in>set calls. run_ok (matches data) n m c) \<and>
    start_maximal (matches data) 0 0 calls \<and>
    n + m = int (edits (matches data) n m) + 2 * total calls"
proof -
  let ?eq = "matches data" and ?D = "edits (matches data) n m"
  note w = well_behavedD [OF wb l]
  note f = top_frame [OF w(1,2), of ?eq]
  from trace_runs [OF f order_refl, of ] have "\<forall>c\<in>set (trace ?eq n m ?D ?D n m). run_ok ?eq n m c"
    by simp
  moreover from trace_anchor [OF f order_refl]
  have "start_maximal ?eq 0 0 (trace ?eq n m ?D ?D n m)" by simp
  ultimately show ?thesis
    using Diff_spec [OF wb l] trace_sorted [OF f order_refl] trace_total [OF f, of ?D]
    by simp
qed



section \<open>The two views, as the specification describes them\<close>

text \<open>\<open>seg A p q\<close> is the slice \<open>A[p:q]\<close>.\<close>

definition seg :: "'a list \<Rightarrow> int \<Rightarrow> int \<Rightarrow> 'a list" where
  "seg A p q = take (nat (q - p)) (drop (nat p) A)"

text \<open>
  The lines of a gap, from its unmatched rows on the left and on the right: rows are
  paired one by one as \<open>Changed\<close> while both sides have a row left; the rows that remain
  on the right are \<open>Added\<close>, those that remain on the left \<open>Deleted\<close>.
\<close>

fun gap_lines :: "string list \<Rightarrow> string list \<Rightarrow> SideBySideLine list" where
  "gap_lines (l # ls) (r # rs) = \<lparr>Left = l, Right = r, Type = Changed\<rparr> # gap_lines ls rs"
| "gap_lines (l # ls) [] = \<lparr>Left = l, Right = '''', Type = Deleted\<rparr> # gap_lines ls []"
| "gap_lines [] (r # rs) = \<lparr>Left = '''', Right = r, Type = Added\<rparr> # gap_lines [] rs"
| "gap_lines [] [] = []"

text \<open>The lines of a run: one \<open>NoChange\<close> line for each matched row.\<close>

definition run_lines :: "string list \<Rightarrow> string list \<Rightarrow> SideBySideLine list" where
  "run_lines ls rs = map (\<lambda>(l, r). \<lparr>Left = l, Right = r, Type = NoChange\<rparr>) (zip ls rs)"

text \<open>
  The side-by-side table for a list of calls, from the rows \<open>p\<close> (left) and \<open>q\<close> (right)
  on: for each call \<open>(i, j, n)\<close> the lines of the gap before the run, then the lines
  of the run.
\<close>

fun table_lines :: "string list \<Rightarrow> string list \<Rightarrow> int \<Rightarrow> int \<Rightarrow> call list \<Rightarrow> SideBySideLine list" where
  "table_lines a b p q [] = []"
| "table_lines a b p q ((i, j, n) # cs) =
     gap_lines (seg a p i) (seg b q j) @ run_lines (seg a i (i + n)) (seg b j (j + n)) @
     table_lines a b (i + n) (j + n) cs"

text \<open>
  The annotated lines for a list of calls, from the row \<open>q\<close> of the new text on: for each
  call \<open>(i, j, n)\<close> the new rows before the run, with the new version, then the lines
  \<open>i\<close> to \<open>i + n\<close> of the previous annotated text as they are. Rows of the previous
  text outside the runs are not used.
\<close>

fun blame_lines :: "AnnotatedLine list \<Rightarrow> string list \<Rightarrow> int \<Rightarrow> int \<Rightarrow> call list \<Rightarrow> AnnotatedLine list" where
  "blame_lines a b version q [] = []"
| "blame_lines a b version q ((i, j, n) # cs) =
     map (\<lambda>s. \<lparr>Text = s, Version = version\<rparr>) (seg b q j) @ seg a i (i + n) @
     blame_lines a b version (j + n) cs"

lemma seg_empty [simp]: "q \<le> p \<Longrightarrow> seg A p q = []"
  by (simp add: seg_def)

lemma seg_Cons:
  assumes "0 \<le> p" "p < q" "q \<le> int (length A)"
  shows "seg A p q = A ! nat p # seg A (p + 1) q"
proof -
  from assms have "nat (q - p) = Suc (nat (q - (p + 1)))" "nat (p + 1) = Suc (nat p)"
    "nat p < length A" by simp_all
  then show ?thesis
    by (simp add: seg_def Cons_nth_drop_Suc [symmetric] del: nat_diff_distrib)
qed

lemma index_in: "0 \<le> p \<Longrightarrow> p < int (length A) \<Longrightarrow> index A p = Inr (A ! nat p)"
  by (simp add: index_def)

lemma sideBySide_gap_spec:
  "0 \<le> sbs_i d \<Longrightarrow> 0 \<le> sbs_j d \<Longrightarrow> sbs_i d \<le> i \<Longrightarrow> sbs_j d \<le> j \<Longrightarrow>
   i \<le> int (length a) \<Longrightarrow> j \<le> int (length b) \<Longrightarrow>
   sideBySide_gap a b i j d =
     Inr \<lparr>sbs_i = i, sbs_j = j,
          sbs_lines = sbs_lines d @ gap_lines (seg a (sbs_i d) i) (seg b (sbs_j d) j)\<rparr>"
proof (induction "nat (i - sbs_i d) + nat (j - sbs_j d)" arbitrary: d rule: less_induct)
  case less
  let ?p = "sbs_i d" and ?q = "sbs_j d"
  consider (both) "?p < i" "?q < j" | (left) "?p < i" "?q = j" | (right) "?p = i" "?q < j"
    | (none) "?p = i" "?q = j"
    using less.prems by linarith
  then show ?case
  proof cases
    case both
    let ?d' = "\<lparr>sbs_i = ?p + 1, sbs_j = ?q + 1,
      sbs_lines = sbs_lines d @ [\<lparr>Left = a ! nat ?p, Right = b ! nat ?q, Type = Changed\<rparr>]\<rparr>"
    from both less.prems have ia: "index a ?p = Inr (a ! nat ?p)" "index b ?q = Inr (b ! nat ?q)"
      by (simp_all add: index_in)
    have step: "sideBySide_gap a b i j d = sideBySide_gap a b i j ?d'"
      using both by (subst sideBySide_gap.simps) (simp add: ia)
    from both have "nat (i - sbs_i ?d') + nat (j - sbs_j ?d') < nat (i - ?p) + nat (j - ?q)"
      by simp
    from less.hyps [OF this] both less.prems
    have "sideBySide_gap a b i j ?d' = Inr \<lparr>sbs_i = i, sbs_j = j,
      sbs_lines = sbs_lines ?d' @ gap_lines (seg a (?p + 1) i) (seg b (?q + 1) j)\<rparr>" by simp
    moreover from both less.prems have "seg a ?p i = a ! nat ?p # seg a (?p + 1) i"
      "seg b ?q j = b ! nat ?q # seg b (?q + 1) j"
      by (simp_all add: seg_Cons)
    ultimately show ?thesis by (simp add: step)
  next
    case left
    let ?d' = "\<lparr>sbs_i = ?p + 1, sbs_j = ?q,
      sbs_lines = sbs_lines d @ [\<lparr>Left = a ! nat ?p, Right = '''', Type = Deleted\<rparr>]\<rparr>"
    from left less.prems have ia: "index a ?p = Inr (a ! nat ?p)"
      by (simp_all add: index_in)
    have step: "sideBySide_gap a b i j d = sideBySide_gap a b i j ?d'"
      using left by (subst sideBySide_gap.simps) (simp add: ia)
    from left have "nat (i - sbs_i ?d') + nat (j - sbs_j ?d') < nat (i - ?p) + nat (j - ?q)"
      by simp
    from less.hyps [OF this] left less.prems
    have "sideBySide_gap a b i j ?d' = Inr \<lparr>sbs_i = i, sbs_j = j,
      sbs_lines = sbs_lines ?d' @ gap_lines (seg a (?p + 1) i) (seg b ?q j)\<rparr>" by simp
    moreover from left less.prems have "seg a ?p i = a ! nat ?p # seg a (?p + 1) i"
      "seg b ?q j = []"
      by (simp_all add: seg_Cons)
    ultimately show ?thesis by (simp add: step)
  next
    case right
    let ?d' = "\<lparr>sbs_i = ?p, sbs_j = ?q + 1,
      sbs_lines = sbs_lines d @ [\<lparr>Left = '''', Right = b ! nat ?q, Type = Added\<rparr>]\<rparr>"
    from right less.prems have ia: "index b ?q = Inr (b ! nat ?q)"
      by (simp_all add: index_in)
    have step: "sideBySide_gap a b i j d = sideBySide_gap a b i j ?d'"
      using right by (subst sideBySide_gap.simps) (simp add: ia)
    from right have "nat (i - sbs_i ?d') + nat (j - sbs_j ?d') < nat (i - ?p) + nat (j - ?q)"
      by simp
    from less.hyps [OF this] right less.prems
    have "sideBySide_gap a b i j ?d' = Inr \<lparr>sbs_i = i, sbs_j = j,
      sbs_lines = sbs_lines ?d' @ gap_lines (seg a ?p i) (seg b (?q + 1) j)\<rparr>" by simp
    moreover from right less.prems have "seg b ?q j = b ! nat ?q # seg b (?q + 1) j"
      "seg a ?p i = []"
      by (simp_all add: seg_Cons)
    ultimately show ?thesis by (simp add: step)
  next
    case none
    then have "sideBySide_gap a b i j d = Inr d"
      by (subst sideBySide_gap.simps) simp
    with none show ?thesis by simp
  qed
qed

lemma sideBySide_run_spec:
  "0 \<le> sbs_i d \<Longrightarrow> 0 \<le> sbs_j d \<Longrightarrow> 0 \<le> n \<Longrightarrow>
   sbs_i d + n \<le> int (length a) \<Longrightarrow> sbs_j d + n \<le> int (length b) \<Longrightarrow>
   sideBySide_run a b n d =
     Inr \<lparr>sbs_i = sbs_i d + n, sbs_j = sbs_j d + n,
          sbs_lines = sbs_lines d @
            run_lines (seg a (sbs_i d) (sbs_i d + n)) (seg b (sbs_j d) (sbs_j d + n))\<rparr>"
proof (induction "nat n" arbitrary: n d)
  case 0
  then have "n = 0" by simp
  then have "sideBySide_run a b n d = Inr d"
    by (subst sideBySide_run.simps) simp
  with \<open>n = 0\<close> show ?case by (simp add: run_lines_def)
next
  case (Suc k)
  let ?p = "sbs_i d" and ?q = "sbs_j d"
  let ?d' = "\<lparr>sbs_i = ?p + 1, sbs_j = ?q + 1,
    sbs_lines = sbs_lines d @ [\<lparr>Left = a ! nat ?p, Right = b ! nat ?q, Type = NoChange\<rparr>]\<rparr>"
  from Suc.hyps(2) have n: "0 < n" "k = nat (n - 1)" by simp_all
  with Suc.prems have ia: "index a ?p = Inr (a ! nat ?p)" "index b ?q = Inr (b ! nat ?q)"
    by (simp_all add: index_in)
  have step: "sideBySide_run a b n d = sideBySide_run a b (n - 1) ?d'"
    using n by (subst sideBySide_run.simps) (simp add: ia)
  from Suc.hyps(1) [OF n(2), of ?d'] Suc.prems n
  have "sideBySide_run a b (n - 1) ?d' = Inr \<lparr>sbs_i = ?p + 1 + (n - 1), sbs_j = ?q + 1 + (n - 1),
    sbs_lines = sbs_lines ?d' @
      run_lines (seg a (?p + 1) (?p + 1 + (n - 1))) (seg b (?q + 1) (?q + 1 + (n - 1)))\<rparr>"
    by simp
  moreover from Suc.prems n have "seg a ?p (?p + n) = a ! nat ?p # seg a (?p + 1) (?p + n)"
    "seg b ?q (?q + n) = b ! nat ?q # seg b (?q + 1) (?q + n)"
    by (simp_all add: seg_Cons)
  ultimately show ?case by (simp add: step run_lines_def)
qed

lemma sideBySide_calls:
  "sorted_wrt before cs \<Longrightarrow> 0 \<le> sbs_i d \<Longrightarrow> 0 \<le> sbs_j d \<Longrightarrow>
   \<forall>c\<in>set cs. run_ok eq (int (length a)) (int (length b)) c \<and>
     sbs_i d \<le> fst c \<and> sbs_j d \<le> fst (snd c) \<Longrightarrow>
   \<exists>d'. run_calls (sideBySide_Common a b) cs d = Inr d' \<and>
     sbs_lines d' = sbs_lines d @ table_lines a b (sbs_i d) (sbs_j d) cs"
proof (induction cs arbitrary: d)
  case Nil
  show ?case by simp
next
  case (Cons c cs)
  obtain i j n where c: "c = (i, j, n)" by (cases c)
  from Cons.prems(4) c have ok: "0 \<le> i" "0 \<le> j" "0 \<le> n" "i + n \<le> int (length a)"
    "j + n \<le> int (length b)" "sbs_i d \<le> i" "sbs_j d \<le> j"
    by (simp_all add: run_ok_def)
  let ?d1 = "\<lparr>sbs_i = i, sbs_j = j,
    sbs_lines = sbs_lines d @ gap_lines (seg a (sbs_i d) i) (seg b (sbs_j d) j)\<rparr>"
  let ?d2 = "\<lparr>sbs_i = i + n, sbs_j = j + n,
    sbs_lines = sbs_lines ?d1 @ run_lines (seg a i (i + n)) (seg b j (j + n))\<rparr>"
  from ok Cons.prems(2,3) have 1: "sideBySide_gap a b i j d = Inr ?d1"
    by (intro sideBySide_gap_spec) simp_all
  from ok have 2: "sideBySide_run a b n ?d1 = Inr ?d2"
    using sideBySide_run_spec [of ?d1 n a b] by simp
  have "\<forall>c'\<in>set cs. run_ok eq (int (length a)) (int (length b)) c' \<and>
    sbs_i ?d2 \<le> fst c' \<and> sbs_j ?d2 \<le> fst (snd c')"
    using Cons.prems(1,4) c by (auto simp: before_def)
  from Cons.IH [OF _ _ _ this] Cons.prems(1) ok
  obtain d' where "run_calls (sideBySide_Common a b) cs ?d2 = Inr d'"
    "sbs_lines d' = sbs_lines ?d2 @ table_lines a b (i + n) (j + n) cs"
    by auto
  with 1 2 show ?case by (simp add: c)
qed

lemma annotate_gap_spec:
  "0 \<le> ann_j d \<Longrightarrow> ann_j d \<le> j \<Longrightarrow> j \<le> int (length b) \<Longrightarrow>
   annotate_gap b version j d =
     Inr \<lparr>ann_j = j,
          ann_lines = ann_lines d @ map (\<lambda>s. \<lparr>Text = s, Version = version\<rparr>) (seg b (ann_j d) j)\<rparr>"
proof (induction "nat (j - ann_j d)" arbitrary: d)
  case 0
  then have e: "ann_j d = j" by simp
  then have "annotate_gap b version j d = Inr d"
    by (subst annotate_gap.simps) simp
  with e show ?case by simp
next
  case (Suc k)
  let ?q = "ann_j d"
  let ?d' = "\<lparr>ann_j = ?q + 1, ann_lines = ann_lines d @ [\<lparr>Text = b ! nat ?q, Version = version\<rparr>]\<rparr>"
  from Suc.hyps(2) have lt: "?q < j" "k = nat (j - ann_j ?d')" by simp_all
  with Suc.prems have ib: "index b ?q = Inr (b ! nat ?q)" by (simp add: index_in)
  have step: "annotate_gap b version j d = annotate_gap b version j ?d'"
    using lt by (subst annotate_gap.simps) (simp add: ib)
  from Suc.hyps(1) [OF lt(2)] Suc.prems lt
  have "annotate_gap b version j ?d' = Inr \<lparr>ann_j = j,
    ann_lines = ann_lines ?d' @ map (\<lambda>s. \<lparr>Text = s, Version = version\<rparr>) (seg b (?q + 1) j)\<rparr>"
    by simp
  moreover from Suc.prems lt have "seg b ?q j = b ! nat ?q # seg b (?q + 1) j"
    by (simp add: seg_Cons)
  ultimately show ?case by (simp add: step)
qed

lemma annotate_calls:
  "sorted_wrt before cs \<Longrightarrow> 0 \<le> ann_j d \<Longrightarrow>
   \<forall>c\<in>set cs. run_ok eq (int (length a)) (int (length b)) c \<and> ann_j d \<le> fst (snd c) \<Longrightarrow>
   \<exists>d'. run_calls (annotate_Common a b version) cs d = Inr d' \<and>
     ann_lines d' = ann_lines d @ blame_lines a b version (ann_j d) cs"
proof (induction cs arbitrary: d)
  case Nil
  show ?case by simp
next
  case (Cons c cs)
  obtain i j n where c: "c = (i, j, n)" by (cases c)
  from Cons.prems(3) c have ok: "0 \<le> i" "0 \<le> j" "0 \<le> n" "i + n \<le> int (length a)"
    "j + n \<le> int (length b)" "ann_j d \<le> j"
    by (simp_all add: run_ok_def)
  let ?d1 = "\<lparr>ann_j = j,
    ann_lines = ann_lines d @ map (\<lambda>s. \<lparr>Text = s, Version = version\<rparr>) (seg b (ann_j d) j)\<rparr>"
  let ?d2 = "\<lparr>ann_j = j + n, ann_lines = ann_lines ?d1 @ seg a i (i + n)\<rparr>"
  from ok Cons.prems(2) have 1: "annotate_gap b version j d = Inr ?d1"
    by (intro annotate_gap_spec) simp_all
  from ok have 2: "slice a i (i + n) = Inr (seg a i (i + n))"
    by (simp add: slice_def seg_def)
  have "\<forall>c'\<in>set cs. run_ok eq (int (length a)) (int (length b)) c' \<and> ann_j ?d2 \<le> fst (snd c')"
    using Cons.prems(1,3) c by (auto simp: before_def)
  from Cons.IH [OF _ _ this] Cons.prems(1) ok
  obtain d' where "run_calls (annotate_Common a b version) cs ?d2 = Inr d'"
    "ann_lines d' = ann_lines ?d2 @ blame_lines a b version (j + n) cs"
    by auto
  with 1 2 show ?case by (simp add: c)
qed

lemma end_left_bounds:
  "sorted_wrt before cs \<Longrightarrow> \<forall>c\<in>set cs. run_ok eq n m c \<and> p \<le> fst c \<Longrightarrow> p \<le> n \<Longrightarrow>
   p \<le> end_left p cs \<and> end_left p cs \<le> n"
proof (induction p cs rule: end_left.induct)
  case (1 p)
  then show ?case by simp
next
  case (2 p i j l cs)
  from 2(3) have ok: "p \<le> i" "0 \<le> l" "i + l \<le> n" by (simp_all add: run_ok_def)
  have "\<forall>c\<in>set cs. run_ok eq n m c \<and> i + l \<le> fst c"
    using 2(2,3) by (auto simp: before_def)
  from 2(1) [OF _ this ok(3)] 2(2) ok show ?case by simp
qed

lemma end_right_bounds:
  "sorted_wrt before cs \<Longrightarrow> \<forall>c\<in>set cs. run_ok eq n m c \<and> q \<le> fst (snd c) \<Longrightarrow> q \<le> m \<Longrightarrow>
   q \<le> end_right q cs \<and> end_right q cs \<le> m"
proof (induction q cs rule: end_right.induct)
  case (1 q)
  then show ?case by simp
next
  case (2 q i j l cs)
  from 2(3) have ok: "q \<le> j" "0 \<le> l" "j + l \<le> m" by (simp_all add: run_ok_def)
  have "\<forall>c\<in>set cs. run_ok eq n m c \<and> j + l \<le> fst (snd c)"
    using 2(2,3) by (auto simp: before_def)
  from 2(1) [OF _ this ok(3)] 2(2) ok show ?case by simp
qed

lemma seg_append:
  assumes "0 \<le> p" "p \<le> q" "q \<le> r"
  shows "seg A p q @ seg A q r = seg A p r"
proof -
  from assms have e: "nat q = nat p + nat (q - p)" "nat (r - p) = nat (q - p) + nat (r - q)"
    by simp_all
  have "drop (nat q) A = drop (nat (q - p)) (drop (nat p) A)"
    by (simp only: e(1) drop_drop add.commute)
  then show ?thesis
    by (simp only: seg_def e(2) take_add)
qed

lemma length_seg: "0 \<le> p \<Longrightarrow> p \<le> q \<Longrightarrow> q \<le> int (length A) \<Longrightarrow> length (seg A p q) = nat (q - p)"
  by (simp add: seg_def)

lemma nth_seg:
  "0 \<le> p \<Longrightarrow> q \<le> int (length A) \<Longrightarrow> t < nat (q - p) \<Longrightarrow> seg A p q ! t = A ! nat (p + int t)"
  by (simp add: seg_def nat_add_distrib)

lemma seg_all: "seg A 0 (int (length A)) = A"
  by (simp add: seg_def)

lemma Diff_calls_end:
  assumes wb: "well_behaved data" and l: "Lengths data = (n, m)"
  shows "\<exists>d calls. Diff data = Inr (d, calls) \<and> sorted_wrt before calls \<and>
    (\<forall>c\<in>set calls. run_ok (matches data) n m c) \<and>
    end_left 0 calls = n \<and> end_right 0 calls = m"
proof -
  let ?eq = "matches data" and ?D = "edits (matches data) n m"
  from Diff_calls [OF assms] obtain calls where c:
    "Diff data = Inr (int ?D, calls)" "calls = trace ?eq n m ?D ?D n m"
    "sorted_wrt before calls" "\<forall>c\<in>set calls. run_ok ?eq n m c" by blast
  from trace_last [of ?eq n m ?D n m] c(2) obtain cs i j k where
    "calls = cs @ [(i, j, k)]" "i = start ?eq n m ?D (n - m)" "j = m - (n - i)" "k = n - i"
    by blast
  then have "end_left 0 calls = n" "end_right 0 calls = m"
    by (simp_all add: end_left_snoc end_right_snoc)
  with c show ?thesis by blast
qed

text \<open>The columns of the side-by-side table.\<close>

lemma gap_lines_left:
  "map Left (filter (\<lambda>l. Type l \<noteq> Added) (gap_lines ls rs)) = ls"
  by (induction ls rs rule: gap_lines.induct) (simp_all add: Added_def Changed_def Deleted_def)

lemma gap_lines_right:
  "map Right (filter (\<lambda>l. Type l \<noteq> Deleted) (gap_lines ls rs)) = rs"
  by (induction ls rs rule: gap_lines.induct) (simp_all add: Added_def Changed_def Deleted_def)

lemma run_lines_left:
  "length ls = length rs \<Longrightarrow> map Left (filter (\<lambda>l. Type l \<noteq> Added) (run_lines ls rs)) = ls"
  by (induction ls rs rule: list_induct2) (simp_all add: run_lines_def NoChange_def Added_def)

lemma run_lines_right:
  "length ls = length rs \<Longrightarrow> map Right (filter (\<lambda>l. Type l \<noteq> Deleted) (run_lines ls rs)) = rs"
  by (induction ls rs rule: list_induct2) (simp_all add: run_lines_def NoChange_def Deleted_def)

lemma table_lines_left:
  "sorted_wrt before cs \<Longrightarrow> 0 \<le> p \<Longrightarrow>
   \<forall>c\<in>set cs. run_ok eq (int (length a)) (int (length b)) c \<and> p \<le> fst c \<Longrightarrow>
   p \<le> int (length a) \<Longrightarrow>
   map Left (filter (\<lambda>l. Type l \<noteq> Added) (table_lines a b p q cs)) = seg a p (end_left p cs)"
proof (induction cs arbitrary: p q)
  case Nil
  show ?case by simp
next
  case (Cons c cs)
  obtain i j n where c: "c = (i, j, n)" by (cases c)
  from Cons.prems(3) c have ok: "0 \<le> i" "0 \<le> j" "0 \<le> n" "i + n \<le> int (length a)"
    "j + n \<le> int (length b)" "p \<le> i"
    by (simp_all add: run_ok_def)
  have rest: "\<forall>c'\<in>set cs. run_ok eq (int (length a)) (int (length b)) c' \<and> i + n \<le> fst c'"
    using Cons.prems(1,3) c by (auto simp: before_def)
  from Cons.prems(1) have s: "sorted_wrt before cs" by simp
  from Cons.IH [OF s _ rest ok(4), of "j + n"] ok
  have 1: "map Left (filter (\<lambda>l. Type l \<noteq> Added) (table_lines a b (i + n) (j + n) cs)) =
    seg a (i + n) (end_left (i + n) cs)" by simp
  from ok have "length (seg a i (i + n)) = length (seg b j (j + n))"
    by (simp add: length_seg)
  from run_lines_left [OF this]
  have 2: "map Left (filter (\<lambda>l. Type l \<noteq> Added) (run_lines (seg a i (i + n)) (seg b j (j + n)))) =
    seg a i (i + n)" .
  from end_left_bounds [OF s rest ok(4)] have e: "i + n \<le> end_left (i + n) cs" by simp
  from ok Cons.prems(2) e have "seg a p i @ seg a i (i + n) @ seg a (i + n) (end_left (i + n) cs) =
    seg a p (end_left (i + n) cs)"
    by (simp add: seg_append)
  with 1 2 show ?case by (simp add: c gap_lines_left)
qed

lemma table_lines_right:
  "sorted_wrt before cs \<Longrightarrow> 0 \<le> q \<Longrightarrow>
   \<forall>c\<in>set cs. run_ok eq (int (length a)) (int (length b)) c \<and> q \<le> fst (snd c) \<Longrightarrow>
   q \<le> int (length b) \<Longrightarrow>
   map Right (filter (\<lambda>l. Type l \<noteq> Deleted) (table_lines a b p q cs)) = seg b q (end_right q cs)"
proof (induction cs arbitrary: p q)
  case Nil
  show ?case by simp
next
  case (Cons c cs)
  obtain i j n where c: "c = (i, j, n)" by (cases c)
  from Cons.prems(3) c have ok: "0 \<le> i" "0 \<le> j" "0 \<le> n" "i + n \<le> int (length a)"
    "j + n \<le> int (length b)" "q \<le> j"
    by (simp_all add: run_ok_def)
  have rest: "\<forall>c'\<in>set cs. run_ok eq (int (length a)) (int (length b)) c' \<and> j + n \<le> fst (snd c')"
    using Cons.prems(1,3) c by (auto simp: before_def)
  from Cons.prems(1) have s: "sorted_wrt before cs" by simp
  from Cons.IH [OF s _ rest ok(5), of "i + n"] ok
  have 1: "map Right (filter (\<lambda>l. Type l \<noteq> Deleted) (table_lines a b (i + n) (j + n) cs)) =
    seg b (j + n) (end_right (j + n) cs)" by simp
  from ok have "length (seg a i (i + n)) = length (seg b j (j + n))"
    by (simp add: length_seg)
  from run_lines_right [OF this]
  have 2: "map Right (filter (\<lambda>l. Type l \<noteq> Deleted) (run_lines (seg a i (i + n)) (seg b j (j + n)))) =
    seg b j (j + n)" .
  from end_right_bounds [OF s rest ok(5)] have e: "j + n \<le> end_right (j + n) cs" by simp
  from ok Cons.prems(2) e have "seg b q j @ seg b j (j + n) @ seg b (j + n) (end_right (j + n) cs) =
    seg b q (end_right (j + n) cs)"
    by (simp add: seg_append)
  with 1 2 show ?case by (simp add: c gap_lines_right)
qed

text \<open>The text of the annotated lines.\<close>

lemma matches_annotate:
  "matches (annotate_Interface a b) x y \<longleftrightarrow>
   0 \<le> x \<and> x < int (length a) \<and> 0 \<le> y \<and> y < int (length b) \<and> Text (a ! nat x) = b ! nat y"
  by (auto simp: matches_def annotate_Interface_def index_def)

lemma run_text:
  assumes "run_ok (matches (annotate_Interface a b)) (int (length a)) (int (length b)) (i, j, n)"
  shows "map Text (seg a i (i + n)) = seg b j (j + n)"
proof (rule nth_equalityI)
  from assms have ok: "0 \<le> i" "0 \<le> j" "0 \<le> n" "i + n \<le> int (length a)"
    "j + n \<le> int (length b)"
    and eq: "\<And>t. 0 \<le> t \<Longrightarrow> t < n \<Longrightarrow> matches (annotate_Interface a b) (i + t) (j + t)"
    by (simp_all add: run_ok_def)
  from ok show "length (map Text (seg a i (i + n))) = length (seg b j (j + n))"
    by (simp add: length_seg)
  fix t
  assume "t < length (map Text (seg a i (i + n)))"
  with ok have t: "t < nat n" by (simp add: length_seg)
  then have "0 \<le> int t" "int t < n" by simp_all
  from eq [OF this] have "Text (a ! nat (i + int t)) = b ! nat (j + int t)"
    by (simp add: matches_annotate)
  moreover from ok t have "seg a i (i + n) ! t = a ! nat (i + int t)"
    "seg b j (j + n) ! t = b ! nat (j + int t)"
    by (simp_all add: nth_seg)
  moreover from ok t have "t < length (seg a i (i + n))" by (simp add: length_seg)
  ultimately show "map Text (seg a i (i + n)) ! t = seg b j (j + n) ! t" by simp
qed

lemma blame_lines_text:
  "sorted_wrt before cs \<Longrightarrow> 0 \<le> q \<Longrightarrow>
   \<forall>c\<in>set cs. run_ok (matches (annotate_Interface a b)) (int (length a)) (int (length b)) c \<and>
     q \<le> fst (snd c) \<Longrightarrow>
   q \<le> int (length b) \<Longrightarrow>
   map Text (blame_lines a b version q cs) = seg b q (end_right q cs)"
proof (induction cs arbitrary: q)
  case Nil
  show ?case by simp
next
  case (Cons c cs)
  obtain i j n where c: "c = (i, j, n)" by (cases c)
  from Cons.prems(3) c
  have r: "run_ok (matches (annotate_Interface a b)) (int (length a)) (int (length b)) (i, j, n)"
    by simp
  then have ok: "0 \<le> i" "0 \<le> j" "0 \<le> n" "i + n \<le> int (length a)" "j + n \<le> int (length b)"
    by (simp_all add: run_ok_def)
  from Cons.prems(3) c have qj: "q \<le> j" by simp
  have rest: "\<forall>c'\<in>set cs.
    run_ok (matches (annotate_Interface a b)) (int (length a)) (int (length b)) c' \<and>
    j + n \<le> fst (snd c')"
    using Cons.prems(1,3) c by (auto simp: before_def)
  from Cons.prems(1) have s: "sorted_wrt before cs" by simp
  from Cons.IH [OF s _ rest ok(5)] ok
  have 1: "map Text (blame_lines a b version (j + n) cs) = seg b (j + n) (end_right (j + n) cs)"
    by simp
  have 2: "map Text (map (\<lambda>s. \<lparr>Text = s, Version = version\<rparr>) (seg b q j)) = seg b q j"
    by (simp add: comp_def)
  from end_right_bounds [OF s rest ok(5)] have e: "j + n \<le> end_right (j + n) cs" by simp
  from ok Cons.prems(2) qj e
  have "seg b q j @ seg b j (j + n) @ seg b (j + n) (end_right (j + n) cs) =
    seg b q (end_right (j + n) cs)"
    by (simp add: seg_append)
  with 1 2 run_text [OF r] show ?case by (simp add: c)
qed

section \<open>The properties of the package\<close>



text \<open>
  C2. On \<open>left = "abcdefghijk"\<close> and \<open>right = "abxyzcdxyzfgxyzj"\<close>, \<open>Diff\<close> returns 13 and
  calls \<open>Common\<close> five times; the slices of the left string (and of the right string)
  that the calls report are \<open>"ab"\<close>, \<open>"cd"\<close>, \<open>"fg"\<close>, \<open>"j"\<close> and \<open>""\<close>, in this order, the
  last call with \<open>n = 0\<close>.
\<close>

theorem Diff_harder_case:
  "Diff (stringDiff ''abcdefghijk'' ''abxyzcdxyzfgxyzj'') =
     Inr (13, [(0, 0, 2), (2, 5, 2), (5, 10, 2), (9, 15, 1), (11, 16, 0)]) \<and>
   runStringDiff ''abcdefghijk'' ''abxyzcdxyzfgxyzj'' =
     Inr (13, [''ab'', ''cd'', ''fg'', ''j'', ''''], [''ab'', ''cd'', ''fg'', ''j'', ''''])"
  by code_simp











text \<open>
  C7. \<open>SideBySide(a, b)\<close> is the table \<open>table_lines\<close> of the calls that \<open>Diff\<close> makes: for
  each call the lines of the gap before its run (\<open>gap_lines\<close>: \<open>Changed\<close> while both sides
  have an unmatched row left, then \<open>Added\<close> for the rows left on the right or \<open>Deleted\<close>
  for the rows left on the left), then one \<open>NoChange\<close> line for each matched row. Every
  row of \<open>a\<close> is on exactly one line that is not \<open>Added\<close> and every row of \<open>b\<close> on
  exactly one line that is not \<open>Deleted\<close>, in order. The two examples are those of the
  specification.
\<close>

theorem SideBySide_table:
  "(\<exists>d calls. Diff (sideBySide_Interface a b) = Inr (d, calls) \<and>
      SideBySide a b = Inr (table_lines a b 0 0 calls) \<and>
      map Left (filter (\<lambda>l. Type l \<noteq> Added) (table_lines a b 0 0 calls)) = a \<and>
      map Right (filter (\<lambda>l. Type l \<noteq> Deleted) (table_lines a b 0 0 calls)) = b) \<and>
   SideBySide [''a'', ''b''] [''a'', ''c''] =
     Inr [\<lparr>Left = ''a'', Right = ''a'', Type = NoChange\<rparr>,
          \<lparr>Left = ''b'', Right = ''c'', Type = Changed\<rparr>] \<and>
   SideBySide [''a'', ''b''] [''a'', ''c'', ''b''] =
     Inr [\<lparr>Left = ''a'', Right = ''a'', Type = NoChange\<rparr>,
          \<lparr>Left = '''', Right = ''c'', Type = Added\<rparr>,
          \<lparr>Left = ''b'', Right = ''b'', Type = NoChange\<rparr>]"
proof (intro conjI)
  let ?data = "sideBySide_Interface a b"
  let ?n = "int (length a)" and ?m = "int (length b)"
  let ?d0 = "\<lparr>sbs_i = 0, sbs_j = 0, sbs_lines = []\<rparr>"
  have l: "Lengths ?data = (?n, ?m)" by (simp add: sideBySide_Interface_def)
  from Diff_calls_end [OF well_behaved_sideBySide l] obtain d calls where c:
    "Diff ?data = Inr (d, calls)" "sorted_wrt before calls"
    "\<forall>c\<in>set calls. run_ok (matches ?data) ?n ?m c"
    "end_left 0 calls = ?n" "end_right 0 calls = ?m" by blast
  from c(3) have ok: "\<forall>c\<in>set calls. run_ok (matches ?data) ?n ?m c \<and>
    sbs_i ?d0 \<le> fst c \<and> sbs_j ?d0 \<le> fst (snd c)"
    by (auto simp: run_ok_def)
  from sideBySide_calls [OF c(2) _ _ ok] obtain d' where d':
    "run_calls (sideBySide_Common a b) calls ?d0 = Inr d'"
    "sbs_lines d' = table_lines a b 0 0 calls" by auto
  from c(1) d' have 1: "SideBySide a b = Inr (table_lines a b 0 0 calls)"
    by (simp add: SideBySide_def)
  from c(3) have okl: "\<forall>c\<in>set calls. run_ok (matches ?data) ?n ?m c \<and> 0 \<le> fst c"
    and okr: "\<forall>c\<in>set calls. run_ok (matches ?data) ?n ?m c \<and> 0 \<le> fst (snd c)"
    by (auto simp: run_ok_def)
  from table_lines_left [OF c(2) _ okl, of 0] c(4)
  have 2: "map Left (filter (\<lambda>l. Type l \<noteq> Added) (table_lines a b 0 0 calls)) = a"
    by (simp add: seg_all)
  from table_lines_right [OF c(2) _ okr, of 0] c(5)
  have 3: "map Right (filter (\<lambda>l. Type l \<noteq> Deleted) (table_lines a b 0 0 calls)) = b"
    by (simp add: seg_all)
  from c(1) 1 2 3
  show "\<exists>d calls. Diff (sideBySide_Interface a b) = Inr (d, calls) \<and>
      SideBySide a b = Inr (table_lines a b 0 0 calls) \<and>
      map Left (filter (\<lambda>l. Type l \<noteq> Added) (table_lines a b 0 0 calls)) = a \<and>
      map Right (filter (\<lambda>l. Type l \<noteq> Deleted) (table_lines a b 0 0 calls)) = b"
    by blast
next
  show "SideBySide [''a'', ''b''] [''a'', ''c''] =
     Inr [\<lparr>Left = ''a'', Right = ''a'', Type = NoChange\<rparr>,
          \<lparr>Left = ''b'', Right = ''c'', Type = Changed\<rparr>]"
    by code_simp
next
  show "SideBySide [''a'', ''b''] [''a'', ''c'', ''b''] =
     Inr [\<lparr>Left = ''a'', Right = ''a'', Type = NoChange\<rparr>,
          \<lparr>Left = '''', Right = ''c'', Type = Added\<rparr>,
          \<lparr>Left = ''b'', Right = ''b'', Type = NoChange\<rparr>]"
    by code_simp
qed

text \<open>
  C8. \<open>Annotate(prevAnnotated, newLines, version)\<close> is \<open>blame_lines\<close> of the calls that
  \<open>Diff\<close> makes: for each call the new rows before its run, each with \<open>version\<close>, then
  the lines of \<open>prevAnnotated\<close> in the run, copied with the version they have. The
  rows of \<open>prevAnnotated\<close> outside the runs are in no part of the result: the texts of
  the result are exactly \<open>newLines\<close>. The example is \<open>ExampleAnnotate\<close> of the package's
  test.
\<close>

theorem Annotate_blame:
  "(\<exists>d calls. Diff (annotate_Interface a b) = Inr (d, calls) \<and>
      Annotate a b version = Inr (blame_lines a b version 0 calls) \<and>
      map Text (blame_lines a b version 0 calls) = b) \<and>
   Annotate [] [''0a'', ''0b'', ''0c''] 0 =
     Inr [\<lparr>Text = ''0a'', Version = 0\<rparr>, \<lparr>Text = ''0b'', Version = 0\<rparr>,
          \<lparr>Text = ''0c'', Version = 0\<rparr>] \<and>
   Annotate [\<lparr>Text = ''0a'', Version = 0\<rparr>, \<lparr>Text = ''0b'', Version = 0\<rparr>,
             \<lparr>Text = ''0c'', Version = 0\<rparr>] [''1a'', ''0a'', ''1b'', ''0c'', ''1c''] 1 =
     Inr [\<lparr>Text = ''1a'', Version = 1\<rparr>, \<lparr>Text = ''0a'', Version = 0\<rparr>,
          \<lparr>Text = ''1b'', Version = 1\<rparr>, \<lparr>Text = ''0c'', Version = 0\<rparr>,
          \<lparr>Text = ''1c'', Version = 1\<rparr>] \<and>
   Annotate [\<lparr>Text = ''1a'', Version = 1\<rparr>, \<lparr>Text = ''0a'', Version = 0\<rparr>,
             \<lparr>Text = ''1b'', Version = 1\<rparr>, \<lparr>Text = ''0c'', Version = 0\<rparr>,
             \<lparr>Text = ''1c'', Version = 1\<rparr>] [''0a'', ''1b'', ''0c'', ''2a'', ''2b'', ''1c''] 2 =
     Inr [\<lparr>Text = ''0a'', Version = 0\<rparr>, \<lparr>Text = ''1b'', Version = 1\<rparr>,
          \<lparr>Text = ''0c'', Version = 0\<rparr>, \<lparr>Text = ''2a'', Version = 2\<rparr>,
          \<lparr>Text = ''2b'', Version = 2\<rparr>, \<lparr>Text = ''1c'', Version = 1\<rparr>]"
proof (intro conjI)
  let ?data = "annotate_Interface a b"
  let ?n = "int (length a)" and ?m = "int (length b)"
  let ?d0 = "\<lparr>ann_j = 0, ann_lines = []\<rparr>"
  have l: "Lengths ?data = (?n, ?m)" by (simp add: annotate_Interface_def)
  from Diff_calls_end [OF well_behaved_annotate l] obtain d calls where c:
    "Diff ?data = Inr (d, calls)" "sorted_wrt before calls"
    "\<forall>c\<in>set calls. run_ok (matches ?data) ?n ?m c"
    "end_right 0 calls = ?m" by blast
  from c(3) have ok: "\<forall>c\<in>set calls. run_ok (matches ?data) ?n ?m c \<and> ann_j ?d0 \<le> fst (snd c)"
    and okr: "\<forall>c\<in>set calls. run_ok (matches ?data) ?n ?m c \<and> 0 \<le> fst (snd c)"
    by (auto simp: run_ok_def)
  from annotate_calls [OF c(2) _ ok, of version] obtain d' where d':
    "run_calls (annotate_Common a b version) calls ?d0 = Inr d'"
    "ann_lines d' = blame_lines a b version 0 calls" by auto
  from c(1) d' have 1: "Annotate a b version = Inr (blame_lines a b version 0 calls)"
    by (simp add: Annotate_def)
  from blame_lines_text [OF c(2) _ okr, of version] c(4)
  have 2: "map Text (blame_lines a b version 0 calls) = b"
    by (simp add: seg_all)
  from c(1) 1 2
  show "\<exists>d calls. Diff (annotate_Interface a b) = Inr (d, calls) \<and>
      Annotate a b version = Inr (blame_lines a b version 0 calls) \<and>
      map Text (blame_lines a b version 0 calls) = b"
    by blast
qed code_simp+





section \<open>The tests of the package, and identical sequences\<close>

text \<open>The cases of \<open>TestDiff\<close>, but for the last one, which is above.\<close>

lemma TestDiff_cases:
  "runStringDiff '''' '''' = Inr (0, [''''], [''''])"
  "runStringDiff '''' ''a'' = Inr (1, [''''], [''''])"
  "runStringDiff ''a'' '''' = Inr (1, [''''], [''''])"
  "runStringDiff ''a'' ''a'' = Inr (0, [''a''], [''a''])"
  "runStringDiff ''ab'' ''a'' = Inr (1, [''a'', ''''], [''a'', ''''])"
  "runStringDiff ''a'' ''ab'' = Inr (1, [''a'', ''''], [''a'', ''''])"
  "runStringDiff ''abc'' ''abc'' = Inr (0, [''abc''], [''abc''])"
  "runStringDiff ''abc'' ''ac'' = Inr (1, [''a'', ''c''], [''a'', ''c''])"
  "runStringDiff ''bc'' ''abc'' = Inr (1, [''bc''], [''bc''])"
  "runStringDiff ''ab'' ''abc'' = Inr (1, [''ab'', ''''], [''ab'', ''''])"
  by code_simp+

text \<open>The cases of \<open>TestSideBySide\<close>.\<close>

lemma TestSideBySide_cases:
  "SideBySide [] [] = Inr []"
  "SideBySide [''a'', ''b''] [''a'', ''c''] =
     Inr [\<lparr>Left = ''a'', Right = ''a'', Type = NoChange\<rparr>,
          \<lparr>Left = ''b'', Right = ''c'', Type = Changed\<rparr>]"
  "SideBySide [''a'', ''b''] [''b''] =
     Inr [\<lparr>Left = ''a'', Right = '''', Type = Deleted\<rparr>,
          \<lparr>Left = ''b'', Right = ''b'', Type = NoChange\<rparr>]"
  "SideBySide [''a'', ''b''] [''a'', ''c'', ''b''] =
     Inr [\<lparr>Left = ''a'', Right = ''a'', Type = NoChange\<rparr>,
          \<lparr>Left = '''', Right = ''c'', Type = Added\<rparr>,
          \<lparr>Left = ''b'', Right = ''b'', Type = NoChange\<rparr>]"
  "SideBySide [''a''] [''b'', ''c''] =
     Inr [\<lparr>Left = ''a'', Right = ''b'', Type = Changed\<rparr>,
          \<lparr>Left = '''', Right = ''c'', Type = Added\<rparr>]"
  by code_simp+

text \<open>
  Two sequences of the same length whose elements are equal index by index: \<open>Diff\<close>
  returns 0 and makes one call, for the whole of the sequences.
\<close>

lemma slide_all:
  "\<forall>i. x \<le> i \<and> i < n \<longrightarrow> eq i (i + (y - x)) \<Longrightarrow> x \<le> n \<Longrightarrow> n - x = m - y \<Longrightarrow>
   slide eq n m x y = n"
proof (induction eq n m x y rule: slide.induct)
  case (1 eq n m x y)
  show ?case
  proof (cases "x < n")
    case True
    with 1(2) have e: "eq x y" by auto
    from True 1(4) have "y < m" by simp
    with True e have s: "slide eq n m x y = slide eq n m (x + 1) (y + 1)"
      by (subst slide.simps) simp
    have "\<forall>i. x + 1 \<le> i \<and> i < n \<longrightarrow> eq i (i + (y + 1 - (x + 1)))"
      using 1(2) by simp
    from 1(1) [OF _ this] True \<open>y < m\<close> e 1(4) show ?thesis by (simp add: s)
  next
    case False
    with 1(3) show ?thesis by (subst slide.simps) simp
  qed
qed

lemma Diff_identical:
  assumes "well_behaved data" and "Lengths data = (n, n)"
    and "\<forall>i. 0 \<le> i \<and> i < n \<longrightarrow> matches data i i"
  shows "Diff data = Inr (0, [(0, 0, n)])"
proof -
  let ?eq = "matches data"
  note w = well_behavedD [OF assms(1,2)]
  from slide_all [of 0 n ?eq 0 n] assms(3) w(1) have f: "far ?eq n n 0 0 = n" by simp
  then have "on_diag 0 0 \<and> hit ?eq n n 0 0" by (simp add: on_diag_def hit_def)
  then have "\<exists>k. on_diag 0 k \<and> hit ?eq n n 0 k" by blast
  then have e: "edits ?eq n n = 0" by (simp add: edits_def)
  have "start ?eq n n 0 0 = 0" by (simp add: start_def ins_def below_def)
  then have "trace ?eq n n 0 0 n n = [(0, 0, n)]" by (simp add: emit_def)
  with Diff_spec [OF assms(1,2)] e show ?thesis by simp
qed

end
